theory Spec2Isabelle
  imports Main "HOL-Library.Char_ord" "HOL-Library.List_Lexorder"
begin

section \<open>Texts and character classes\<close>

text \<open>
  The scripts work on Python \<open>str\<close> values. A text is modelled as an Isabelle
  \<open>string\<close>; a character is read as the code point \<open>of_char c\<close>, so the model
  covers the code points 0..255 of Python's \<open>str\<close>. On that range the classes below
  are the ones Python's \<open>re\<close> module and \<open>str\<close> methods use for \<open>str\<close> patterns:
  \<open>[A-Z]\<close>, \<open>\d\<close>, \<open>\s\<close> (the same characters \<open>str.strip\<close> removes), \<open>\w\<close>
  and \<open>str.lower\<close>.
\<close>

definition code :: "char \<Rightarrow> nat" where
  "code c = of_char c"

definition is_upper :: "char \<Rightarrow> bool" where
  "is_upper c = (65 \<le> code c \<and> code c \<le> 90)"

definition is_digit :: "char \<Rightarrow> bool" where
  "is_digit c = (48 \<le> code c \<and> code c \<le> 57)"

definition is_space :: "char \<Rightarrow> bool" where
  "is_space c = ((9 \<le> code c \<and> code c \<le> 13) \<or> (28 \<le> code c \<and> code c \<le> 32)
     \<or> code c = 133 \<or> code c = 160)"

definition is_word :: "char \<Rightarrow> bool" where
  "is_word c = (let n = code c in
     (48 \<le> n \<and> n \<le> 57) \<or> (65 \<le> n \<and> n \<le> 90) \<or> n = 95 \<or> (97 \<le> n \<and> n \<le> 122)
     \<or> n = 170 \<or> n = 178 \<or> n = 179 \<or> n = 181 \<or> n = 185 \<or> n = 186
     \<or> (188 \<le> n \<and> n \<le> 190) \<or> (192 \<le> n \<and> n \<le> 214) \<or> (216 \<le> n \<and> n \<le> 246)
     \<or> (248 \<le> n \<and> n \<le> 255))"

definition char_lower :: "char \<Rightarrow> char" where
  "char_lower c = (let n = code c in
     if (65 \<le> n \<and> n \<le> 90) \<or> (192 \<le> n \<and> n \<le> 214) \<or> (216 \<le> n \<and> n \<le> 222)
     then char_of (n + 32) else c)"

definition lower :: "string \<Rightarrow> string" where
  "lower s = map char_lower s"

definition strip :: "string \<Rightarrow> string" where
  "strip s = rev (dropWhile is_space (rev (dropWhile is_space s)))"

text \<open>Python's slice \<open>s[a:b]\<close> for \<open>0 \<le> a\<close> and \<open>0 \<le> b\<close>.\<close>

definition slice :: "string \<Rightarrow> nat \<Rightarrow> nat \<Rightarrow> string" where
  "slice s a b = take (b - a) (drop a s)"

text \<open>Python's \<open>w in s\<close> for strings.\<close>

definition contains :: "string \<Rightarrow> string \<Rightarrow> bool" where
  "contains w s = list_ex (\<lambda>i. take (length w) (drop i s) = w) [0..<Suc (length s)]"

section \<open>Regular expressions, matched by backtracking\<close>

text \<open>
  A pattern is embedded as a matcher in continuation style: \<open>m t i k\<close> tries the
  pattern on the text \<open>t\<close> at offset \<open>i\<close> and hands every end offset it can reach, in the
  order Python's backtracking matcher tries them, to the continuation \<open>k\<close>; the first
  success is the result. So a sequence of patterns is a nesting of continuations, and
  a captured group is the pair of offsets around it.
\<close>

fun first_some :: "('a \<Rightarrow> 'b option) \<Rightarrow> 'a list \<Rightarrow> 'b option" where
  "first_some f [] = None"
| "first_some f (x # xs) = (case f x of Some y \<Rightarrow> Some y | None \<Rightarrow> first_some f xs)"

text \<open>\<open>\b\<close>: exactly one of the characters before and at the offset is a word character.\<close>

definition word_before :: "string \<Rightarrow> nat \<Rightarrow> bool" where
  "word_before t i = (0 < i \<and> i \<le> length t \<and> is_word (t ! (i - 1)))"

definition word_at :: "string \<Rightarrow> nat \<Rightarrow> bool" where
  "word_at t i = (i < length t \<and> is_word (t ! i))"

definition word_boundary :: "string \<Rightarrow> nat \<Rightarrow> bool" where
  "word_boundary t i = (word_before t i \<noteq> word_at t i)"

definition bnd :: "string \<Rightarrow> nat \<Rightarrow> (nat \<Rightarrow> 'r option) \<Rightarrow> 'r option" where
  "bnd t i k = (if word_boundary t i then k i else None)"

text \<open>A literal, and a literal under \<open>re.IGNORECASE\<close> (the literal given in lower case).\<close>

definition lit :: "string \<Rightarrow> string \<Rightarrow> nat \<Rightarrow> (nat \<Rightarrow> 'r option) \<Rightarrow> 'r option" where
  "lit w t i k = (if slice t i (i + length w) = w then k (i + length w) else None)"

definition lit_ci :: "string \<Rightarrow> string \<Rightarrow> nat \<Rightarrow> (nat \<Rightarrow> 'r option) \<Rightarrow> 'r option" where
  "lit_ci w t i k = (if lower (slice t i (i + length w)) = w then k (i + length w) else None)"

text \<open>
  A greedy repetition \<open>c{lo,hi}\<close> of a character class (\<open>hi = None\<close> for no upper
  bound): the longest run first, then one character less at a time, down to \<open>lo\<close>.
\<close>

definition run :: "(char \<Rightarrow> bool) \<Rightarrow> string \<Rightarrow> nat \<Rightarrow> nat" where
  "run cls t i = length (takeWhile cls (drop i t))"

definition rep :: "(char \<Rightarrow> bool) \<Rightarrow> nat \<Rightarrow> nat option \<Rightarrow> string \<Rightarrow> nat \<Rightarrow> (nat \<Rightarrow> 'r option) \<Rightarrow> 'r option" where
  "rep cls lo hi t i k =
     first_some (\<lambda>n. k (i + n))
       (rev [lo..<Suc (case hi of None \<Rightarrow> run cls t i | Some h \<Rightarrow> min h (run cls t i))])"

text \<open>An alternation \<open>a|b\<close>: the left branch first.\<close>

definition alt :: "(string \<Rightarrow> nat \<Rightarrow> (nat \<Rightarrow> 'r option) \<Rightarrow> 'r option) \<Rightarrow> (string \<Rightarrow> nat \<Rightarrow> (nat \<Rightarrow> 'r option) \<Rightarrow> 'r option)
    \<Rightarrow> string \<Rightarrow> nat \<Rightarrow> (nat \<Rightarrow> 'r option) \<Rightarrow> 'r option" where
  "alt a b t i k = (case a t i k of Some r \<Rightarrow> Some r | None \<Rightarrow> b t i k)"

fun alts :: "(string \<Rightarrow> nat \<Rightarrow> (nat \<Rightarrow> 'r option) \<Rightarrow> 'r option) list
    \<Rightarrow> string \<Rightarrow> nat \<Rightarrow> (nat \<Rightarrow> 'r option) \<Rightarrow> 'r option" where
  "alts [] t i k = None"
| "alts (a # as) t i k = (case a t i k of Some r \<Rightarrow> Some r | None \<Rightarrow> alts as t i k)"

text \<open>
  \<open>re.search\<close>: the leftmost offset at which the pattern matches; the result is the
  start offset with whatever the pattern returns (its end offset, its groups).
\<close>

definition re_search :: "(string \<Rightarrow> nat \<Rightarrow> 'r option) \<Rightarrow> string \<Rightarrow> (nat \<times> 'r) option" where
  "re_search m t = first_some (\<lambda>i. map_option (\<lambda>r. (i, r)) (m t i)) [0..<Suc (length t)]"

text \<open>
  \<open>finditer\<close>: the matches from left to right, each search starting where the last
  match ended (one character further after an empty match).
\<close>

function finditer_from :: "(string \<Rightarrow> nat \<Rightarrow> ('a \<times> nat) option) \<Rightarrow> string \<Rightarrow> nat \<Rightarrow> (nat \<times> 'a \<times> nat) list" where
  "finditer_from m t i =
     (if length t < i then []
      else case m t i of
        None \<Rightarrow> finditer_from m t (Suc i)
      | Some (g, e) \<Rightarrow> (i, g, e) # finditer_from m t (if i < e then e else Suc i))"
  by pat_completeness auto
termination
  by (relation "measure (\<lambda>(m, t, i). Suc (length t) - i)") auto

declare finditer_from.simps [simp del]

definition finditer :: "(string \<Rightarrow> nat \<Rightarrow> ('a \<times> nat) option) \<Rightarrow> string \<Rightarrow> (nat \<times> 'a \<times> nat) list" where
  "finditer m t = finditer_from m t 0"

text \<open>\<open>re.sub(r"\s+", " ", s)\<close>: every maximal run of whitespace becomes one blank.\<close>

function sub_spaces :: "string \<Rightarrow> string" where
  "sub_spaces [] = []"
| "sub_spaces (c # cs) =
     (if is_space c then CHR '' '' # sub_spaces (dropWhile is_space cs)
      else c # sub_spaces cs)"
  by pat_completeness auto
termination
  by (relation "measure length") (auto simp: less_Suc_eq_le length_dropWhile_le)

text \<open>
  \<open>re.split\<close> on the runs of one separator character (\<open>;+\<close> and \<open>,+\<close>): the pieces
  between the runs, empty pieces at the two ends included.
\<close>

function split_runs :: "char \<Rightarrow> string \<Rightarrow> string list" where
  "split_runs sep s =
     (let rest = dropWhile (\<lambda>c. c \<noteq> sep) s in
      if rest = [] then [takeWhile (\<lambda>c. c \<noteq> sep) s]
      else takeWhile (\<lambda>c. c \<noteq> sep) s # split_runs sep (dropWhile (\<lambda>c. c = sep) rest))"
  by pat_completeness auto
termination
proof (relation "measure (\<lambda>(sep, s). length s)")
  show "wf (measure (\<lambda>(sep, s). length s))" by simp
next
  fix sep :: char and s rest :: string
  assume r: "rest = dropWhile (\<lambda>c. c \<noteq> sep) s" and ne: "rest \<noteq> []"
  obtain c cs where rc: "rest = c # cs" using ne by (cases rest) auto
  have "c = sep"
    using r rc hd_dropWhile [of "\<lambda>c. c \<noteq> sep" s] by (metis list.sel(1) ne)
  then have "length (dropWhile (\<lambda>c. c = sep) rest) \<le> length cs"
    using rc by (simp add: length_dropWhile_le)
  moreover have "length rest \<le> length s"
    unfolding r by (rule length_dropWhile_le)
  ultimately show "((sep, dropWhile (\<lambda>c. c = sep) rest), (sep, s)) \<in> measure (\<lambda>(sep, s). length s)"
    using rc by simp
qed

declare split_runs.simps [simp del]

section \<open>parse\_course\_prereqs.py\<close>

text \<open>
  \<open>COURSE_RE = \b([A-Z]{2,4})\s*(\d{2,3}[A-Z]?)\b\<close>. A match returns the course
  \<open>f"{m.group(1)} {m.group(2)}"\<close> and the end offset.
\<close>

definition COURSE_RE :: "string \<Rightarrow> nat \<Rightarrow> (string \<times> nat) option" where
  "COURSE_RE t i =
     bnd t i (\<lambda>_.
     rep is_upper 2 (Some 4) t i (\<lambda>j.
     rep is_space 0 None t j (\<lambda>k.
     rep is_digit 2 (Some 3) t k (\<lambda>l.
     rep is_upper 0 (Some 1) t l (\<lambda>e.
     bnd t e (\<lambda>_. Some (slice t i j @ '' '' @ slice t k e, e)))))))"

definition find_course_spans :: "string \<Rightarrow> (string \<times> nat \<times> nat) list" where
  "find_course_spans text = map (\<lambda>(s, c, e). (c, s, e)) (finditer COURSE_RE text)"

definition normalize_space :: "string \<Rightarrow> string" where
  "normalize_space s = strip (sub_spaces s)"

text \<open>
  The requirement tree: the dictionaries \<open>{"op": "EMPTY"}\<close>,
  \<open>{"op": "COURSE", "course": c}\<close>, \<open>{"op": "AND", "items": [...]}\<close> and
  \<open>{"op": "OR", "items": [...]}\<close>.
\<close>

datatype node = EMPTY | COURSE string | AND "node list" | OR "node list"

text \<open>The connector strings \<open>"AND"\<close>, \<open>"OR"\<close>, \<open>"LIST"\<close> and \<open>"UNKNOWN"\<close>.\<close>

datatype connector = ConnAND | ConnOR | ConnLIST | ConnUNKNOWN

text \<open>\<open>re.search(r"\band\b", s)\<close>, \<open>re.search(r"\bor\b", s)\<close> as truth values.\<close>

definition has_word :: "string \<Rightarrow> string \<Rightarrow> bool" where
  "has_word w s = (re_search (\<lambda>t i. bnd t i (\<lambda>_. lit w t i (\<lambda>e. bnd t e (\<lambda>_. Some e)))) s \<noteq> None)"

text \<open>\<open>re.search(r"\b(one of|any of)\b", clause_clean, flags=re.IGNORECASE)\<close>.\<close>

definition ONE_OF_RE :: "string \<Rightarrow> nat \<Rightarrow> nat option" where
  "ONE_OF_RE t i =
     bnd t i (\<lambda>_. alt (lit_ci ''one of'') (lit_ci ''any of'') t i (\<lambda>e. bnd t e (\<lambda>_. Some e)))"

text \<open>Lines 32 to 45: the "one of" window; \<open>None\<close> when the code falls through.\<close>

definition one_of_group :: "string \<Rightarrow> (string \<times> nat \<times> nat) list \<Rightarrow> node option" where
  "one_of_group clause_clean courses =
     (case re_search ONE_OF_RE clause_clean of
        None \<Rightarrow> None
      | Some (_, start_idx) \<Rightarrow>
          (let or_list = map fst (filter (\<lambda>(c, s, e). s \<ge> start_idx) courses) in
           if or_list = [] then None
           else
             (let prior_courses = map fst (filter (\<lambda>(c, s, e). s < start_idx) courses);
                  items = map COURSE prior_courses @ [OR (map COURSE or_list)]
              in Some (if length items > 1 then AND items else items ! 0))))"

text \<open>Lines 53 to 65: the connector read from the text between two adjacent tokens.\<close>

definition connector_of :: "string \<Rightarrow> connector" where
  "connector_of between0 =
     (let between = lower between0 in
      if contains ''and/or'' between then ConnOR
      else if has_word ''and'' between then ConnAND
      else if has_word ''or'' between then ConnOR
      else if contains '','' between then ConnLIST
      else ConnUNKNOWN)"

text \<open>Lines 49 to 52: the loop over \<open>range(len(courses) - 1)\<close>.\<close>

definition connectors_of :: "string \<Rightarrow> (string \<times> nat \<times> nat) list \<Rightarrow> connector list" where
  "connectors_of clause_clean courses =
     map (\<lambda>i. case (courses ! i, courses ! (i + 1)) of
                 ((_, _, end_prev), (_, start_next, _)) \<Rightarrow>
                   connector_of (slice clause_clean end_prev start_next))
       [0..<length courses - 1]"

text \<open>Lines 82 to 94: the comma segments and the group of each segment with courses.\<close>

definition segments_of :: "string \<Rightarrow> string list" where
  "segments_of clause_clean =
     map normalize_space (filter (\<lambda>s. normalize_space s \<noteq> []) (split_runs CHR '','' clause_clean))"

definition segment_group :: "string \<Rightarrow> node" where
  "segment_group seg =
     (let seg_courses = find_course_spans seg;
          leaves = map (\<lambda>(c, _, _). COURSE c) seg_courses
      in if has_word ''and'' (lower seg) \<and> \<not> has_word ''or'' (lower seg) then AND leaves
         else if has_word ''or'' (lower seg) \<and> \<not> has_word ''and'' (lower seg) then OR leaves
         else OR leaves)"

definition segment_groups :: "string \<Rightarrow> node list" where
  "segment_groups clause_clean =
     map segment_group (filter (\<lambda>seg. find_course_spans seg \<noteq> []) (segments_of clause_clean))"

fun is_AND :: "node \<Rightarrow> bool" where
  "is_AND (AND _) = True"
| "is_AND _ = False"

fun is_OR :: "node \<Rightarrow> bool" where
  "is_OR (OR _) = True"
| "is_OR _ = False"

text \<open>Lines 96 to 108: the segment groups combined.\<close>

definition combine_segments :: "(string \<times> nat \<times> nat) list \<Rightarrow> node list \<Rightarrow> node" where
  "combine_segments courses subitems0 =
     (let subitems = (if subitems0 = [] then map (\<lambda>(c, _, _). COURSE c) courses else subitems0);
          and_count = length (filter is_AND subitems);
          or_count = length (filter is_OR subitems)
      in if and_count \<noteq> 0 \<and> or_count = 0 then AND subitems
         else if or_count \<noteq> 0 \<and> and_count = 0 then OR subitems
         else AND subitems)"

definition parse_clause_into_group :: "string \<Rightarrow> node" where
  "parse_clause_into_group clause =
     (let clause_clean = normalize_space clause;
          courses = find_course_spans clause_clean
      in if courses = [] then EMPTY
         else case one_of_group clause_clean courses of
           Some grp \<Rightarrow> grp
         | None \<Rightarrow>
            (let connectors = connectors_of clause_clean courses;
                 course_items = map (\<lambda>(c, _, _). COURSE c) courses
             in if ConnAND \<in> set connectors \<and> ConnOR \<notin> set connectors then AND course_items
                else if ConnOR \<in> set connectors \<and> ConnAND \<notin> set connectors then OR course_items
                else if ConnAND \<notin> set connectors \<and> ConnOR \<notin> set connectors then
                  (if list_ex (\<lambda>k. k = ConnLIST) connectors then OR course_items
                   else if length course_items > 1 then AND course_items else course_items ! 0)
                else combine_segments courses (segment_groups clause_clean)))"

text \<open>\<open>is_coreq_clause\<close>, the local function of \<open>parse_prereq_text\<close>.\<close>

definition COREQ_RE :: "string \<Rightarrow> nat \<Rightarrow> nat option" where
  "COREQ_RE t i =
     lit ''credit'' t i (\<lambda>a. rep is_space 1 None t a (\<lambda>b.
     lit ''or'' t b (\<lambda>c. rep is_space 1 None t c (\<lambda>d.
     lit ''concurrent'' t d (\<lambda>e. rep is_space 1 None t e (\<lambda>f.
     alt (lit ''enrollment'') (lit ''registration'') t f (\<lambda>g. rep is_space 1 None t g (\<lambda>h.
     lit ''in'' t h (\<lambda>z. Some z)))))))))"

definition is_coreq_clause :: "string \<Rightarrow> bool" where
  "is_coreq_clause c =
     (let c_low = lower c in
      contains ''concurrent'' c_low \<or> contains ''co-requisite'' c_low
      \<or> contains ''corequisite'' c_low \<or> re_search COREQ_RE c_low \<noteq> None)"

text \<open>The clauses: the pieces between runs of semicolons, normalised, the empty ones dropped.\<close>

definition clauses_of :: "string \<Rightarrow> string list" where
  "clauses_of text =
     map normalize_space (filter (\<lambda>c. normalize_space c \<noteq> []) (split_runs CHR '';'' text))"

text \<open>The loop of lines 128 to 135 over the clauses, on the two lists it appends to.\<close>

fun route :: "string list \<Rightarrow> node list \<times> node list \<Rightarrow> node list \<times> node list" where
  "route [] (hard_groups, coreq_groups) = (hard_groups, coreq_groups)"
| "route (clause # clauses) (hard_groups, coreq_groups) =
     (let grp = parse_clause_into_group clause in
      if grp = EMPTY then route clauses (hard_groups, coreq_groups)
      else if is_coreq_clause clause then route clauses (hard_groups, coreq_groups @ [grp])
      else route clauses (hard_groups @ [grp], coreq_groups))"

definition fold_groups :: "node list \<Rightarrow> node" where
  "fold_groups groups =
     (if groups = [] then EMPTY
      else if length groups = 1 then groups ! 0
      else AND groups)"

record parsed =
  hard :: node
  coreq_ok :: node

definition parse_prereq_text :: "string \<Rightarrow> parsed" where
  "parse_prereq_text text =
     (let clauses = clauses_of text in
      if clauses = [] then \<lparr>hard = EMPTY, coreq_ok = EMPTY\<rparr>
      else case route clauses ([], []) of
        (hard_groups, coreq_groups) \<Rightarrow>
          \<lparr>hard = fold_groups hard_groups, coreq_ok = fold_groups coreq_groups\<rparr>)"

section \<open>analyze\_prereqs.py\<close>

text \<open>
  \<open>NONE_PATTERNS\<close>, each compiled with \<open>re.IGNORECASE\<close>:
  \<open>^\s*none\.?\s*$\<close>, \<open>no prerequisites\<close> and \<open>prerequisite[s]?:\s*none\b\<close>.
  \<open>^\<close> matches at offset 0 only; \<open>$\<close> matches at the end of the text and before a
  line feed that ends it.
\<close>

definition at_dollar :: "string \<Rightarrow> nat \<Rightarrow> bool" where
  "at_dollar t i = (i = length t \<or> (Suc i = length t \<and> t ! i = CHR 0x0A))"

definition NONE_PATTERN_0 :: "string \<Rightarrow> nat \<Rightarrow> nat option" where
  "NONE_PATTERN_0 t i =
     (if i = 0 then
        rep is_space 0 None t i (\<lambda>a. lit_ci ''none'' t a (\<lambda>b.
        rep (\<lambda>c. c = CHR ''.'') 0 (Some 1) t b (\<lambda>c. rep is_space 0 None t c (\<lambda>d.
        if at_dollar t d then Some d else None))))
      else None)"

definition NONE_PATTERN_1 :: "string \<Rightarrow> nat \<Rightarrow> nat option" where
  "NONE_PATTERN_1 t i = lit_ci ''no prerequisites'' t i (\<lambda>e. Some e)"

definition NONE_PATTERN_2 :: "string \<Rightarrow> nat \<Rightarrow> nat option" where
  "NONE_PATTERN_2 t i =
     lit_ci ''prerequisite'' t i (\<lambda>a. rep (\<lambda>c. char_lower c = CHR ''s'') 0 (Some 1) t a (\<lambda>b.
     lit '':'' t b (\<lambda>c. rep is_space 0 None t c (\<lambda>d. lit_ci ''none'' t d (\<lambda>e.
     bnd t e (\<lambda>_. Some e))))))"

definition NONE_PATTERNS :: "(string \<Rightarrow> nat \<Rightarrow> nat option) list" where
  "NONE_PATTERNS = [NONE_PATTERN_0, NONE_PATTERN_1, NONE_PATTERN_2]"

definition is_none_text :: "string \<Rightarrow> bool" where
  "is_none_text text = (let t = strip text in list_ex (\<lambda>p. re_search p t \<noteq> None) NONE_PATTERNS)"

definition extract_course_refs :: "string \<Rightarrow> string list" where
  "extract_course_refs text = map (\<lambda>(s, c, e). c) (finditer COURSE_RE text)"

text \<open>
  \<open>NON_COURSE_KEYWORDS\<close>: literals, but for \<open>credits?\<close> and \<open>hours?\<close> with their
  optional last letter.
\<close>

definition opt_s :: "string \<Rightarrow> string \<Rightarrow> nat \<Rightarrow> (nat \<Rightarrow> 'r option) \<Rightarrow> 'r option" where
  "opt_s w t i k = lit w t i (\<lambda>a. rep (\<lambda>c. c = CHR ''s'') 0 (Some 1) t a k)"

definition NON_COURSE_KEYWORDS :: "(string \<Rightarrow> nat \<Rightarrow> nat option) list" where
  "NON_COURSE_KEYWORDS =
     map (\<lambda>w t i. lit w t i Some)
       [''consent'', ''permission'', ''approval'',
        ''standing'', ''senior'', ''junior'', ''sophomore'', ''freshman'',
        ''major'', ''minor'', ''program'', ''restricted'', ''enrollment'', ''enrolled'',
        ''gpa'', ''grade'', ''minimum'', ''credit hour'']
     @ [\<lambda>t i. opt_s ''credit'' t i Some, \<lambda>t i. opt_s ''hour'' t i Some]
     @ map (\<lambda>w t i. lit w t i Some)
       [''registration'', ''concurrent'', ''co-requisite'', ''corequisite'',
        ''department'', ''instructor'']"

definition has_non_course_requirements :: "string \<Rightarrow> bool" where
  "has_non_course_requirements text =
     (let t = lower text in list_ex (\<lambda>k. re_search k t \<noteq> None) NON_COURSE_KEYWORDS)"

text \<open>
  \<open>re.sub\<close>: the text with every match, found from left to right, replaced. (No
  pattern of the scripts matches the empty string.)
\<close>

function sub_from :: "(string \<Rightarrow> nat \<Rightarrow> nat option) \<Rightarrow> string \<Rightarrow> string \<Rightarrow> nat \<Rightarrow> string" where
  "sub_from m repl t i =
     (if length t \<le> i then (case m t i of None \<Rightarrow> [] | Some e \<Rightarrow> repl)
      else case m t i of
        None \<Rightarrow> t ! i # sub_from m repl t (Suc i)
      | Some e \<Rightarrow>
          (if i < e then repl @ sub_from m repl t e
           else repl @ t ! i # sub_from m repl t (Suc i)))"
  by pat_completeness auto
termination
  by (relation "measure (\<lambda>(m, repl, t, i). length t - i)") auto

declare sub_from.simps [simp del]

definition re_sub :: "(string \<Rightarrow> nat \<Rightarrow> nat option) \<Rightarrow> string \<Rightarrow> string \<Rightarrow> string" where
  "re_sub m repl t = sub_from m repl t 0"

text \<open>\<open>re.fullmatch(r"(COURSE\s*)+", s) is not None\<close>.\<close>

function fullmatch_COURSE :: "string \<Rightarrow> bool" where
  "fullmatch_COURSE s =
     (if take 6 s = ''COURSE'' then
        (if dropWhile is_space (drop 6 s) = [] then True
         else fullmatch_COURSE (dropWhile is_space (drop 6 s)))
      else False)"
  by pat_completeness auto
termination
proof (relation "measure length")
  show "wf (measure length)" by simp
next
  fix s :: string
  assume "take 6 s = ''COURSE''"
  then have "length (take 6 s) = 6" by simp
  then have "6 \<le> length s" by simp
  moreover have "length (dropWhile is_space (drop 6 s)) \<le> length (drop 6 s)"
    by (rule length_dropWhile_le)
  ultimately show "(dropWhile is_space (drop 6 s), s) \<in> measure length" by simp
qed

declare fullmatch_COURSE.simps [simp del]

definition is_course_only :: "string \<Rightarrow> bool" where
  "is_course_only text =
     (let t = strip text in
      if has_non_course_requirements t then False
      else
       (let placeholder = re_sub (\<lambda>t i. map_option snd (COURSE_RE t i)) ''COURSE'' t;
            simplified1 = map (\<lambda>c. if c \<in> set ''(),.;'' then CHR '' '' else c) placeholder;
            simplified2 =
              re_sub (\<lambda>t i. bnd t i (\<lambda>_.
                  alts (map lit_ci [''and'', ''or'', ''and/or'', ''either'', ''both'', ''one of'',
                                    ''two of'', ''with'', ''credit in'']) t i (\<lambda>e.
                  bnd t e (\<lambda>_. Some e))))
                '' '' simplified1;
            simplified3 =
              re_sub (\<lambda>t i. bnd t i (\<lambda>_. lit_ci ''at'' t i (\<lambda>a. rep is_space 1 None t a (\<lambda>b.
                  lit_ci ''least'' t b (\<lambda>e. bnd t e (\<lambda>_. Some e))))))
                '' '' simplified2;
            simplified = strip (sub_spaces simplified3)
        in simplified = [] \<or> fullmatch_COURSE simplified))"

text \<open>
  A course record of the input array: \<open>c.get("index")\<close>, \<open>c.get("name")\<close> and
  \<open>c.get("prerequisites")\<close>, each \<open>None\<close> when the key is absent or null.
\<close>

record course =
  index :: "string option"
  name :: "string option"
  prerequisites :: "string option"

record results =
  none :: "course list"
  course_only :: "(string option \<times> string option \<times> string \<times> string list) list"
  remaining :: "(string option \<times> string option \<times> string) list"

text \<open>The body of the loop of \<open>analyze\<close>, and the loop.\<close>

definition analyze_step :: "results \<Rightarrow> course \<Rightarrow> results" where
  "analyze_step res c =
     (let prereq = (case prerequisites c of None \<Rightarrow> [] | Some p \<Rightarrow> p) in
      if strip prereq = [] then res\<lparr>none := none res @ [c]\<rparr>
      else if is_none_text prereq then res\<lparr>none := none res @ [c]\<rparr>
      else if is_course_only prereq then
        res\<lparr>course_only := course_only res @ [(index c, name c, prereq, extract_course_refs prereq)]\<rparr>
      else res\<lparr>remaining := remaining res @ [(index c, name c, prereq)]\<rparr>)"

definition analyze :: "course list \<Rightarrow> results" where
  "analyze courses = foldl analyze_step \<lparr>none = [], course_only = [], remaining = []\<rparr> courses"

section \<open>build\_final\_parsed.py\<close>

definition has_course_token :: "string \<Rightarrow> bool" where
  "has_course_token s = (re_search COURSE_RE s \<noteq> None)"

text \<open>The list \<open>mapping\<close> of \<open>detect_flags\<close>: an alternation of literals and a flag name.\<close>

definition mapping :: "(string list \<times> string) list" where
  "mapping =
     [([''consent'', ''permission'', ''approval''], ''CONSENT''),
      ([''standing'', ''senior'', ''junior'', ''sophomore'', ''freshman''], ''STANDING''),
      ([''major'', ''minor'', ''program'', ''restricted'', ''enrollment'', ''enrolled''],
         ''MAJOR_OR_PROGRAM''),
      ([''gpa'', ''grade'', ''minimum''], ''GRADE_OR_GPA''),
      ([''concurrent'', ''co-requisite'', ''corequisite''], ''COREQ_ALLOWED''),
      ([''department'', ''instructor''], ''DEPT_OR_INSTRUCTOR'')]"

definition search_alternation :: "string list \<Rightarrow> string \<Rightarrow> bool" where
  "search_alternation pat t = (re_search (\<lambda>t i. alts (map lit pat) t i Some) t \<noteq> None)"

definition detect_flags :: "string \<Rightarrow> string list" where
  "detect_flags text =
     (let t = lower text;
          flags = map snd (filter (\<lambda>(pat, name). search_alternation pat t) mapping)
      in sort (remdups flags))"

text \<open>The \<open>"prerequisites"\<close> object \<open>main\<close> writes for one course record.\<close>

record final = parsed +
  raw :: "string option"
  flags :: "string list"
  notes' :: "string list"

definition build_prerequisites :: "course \<Rightarrow> final" where
  "build_prerequisites c =
     (let raw0 = strip (case prerequisites c of None \<Rightarrow> [] | Some p \<Rightarrow> p);
          ast = parse_prereq_text raw0;
          clauses = (if raw0 \<noteq> [] then
                       map strip (filter (\<lambda>s. strip s \<noteq> []) (split_runs CHR '';'' raw0))
                     else []);
          notes0 = filter (\<lambda>cl. \<not> has_course_token cl \<or> detect_flags cl \<noteq> []) clauses
      in \<lparr>hard = hard ast, coreq_ok = coreq_ok ast,
          raw = (if raw0 \<noteq> [] then Some raw0 else None),
          flags = (if raw0 \<noteq> [] then detect_flags raw0 else []),
          notes' = notes0\<rparr>)"

section \<open>The claims' own words\<close>

text \<open>
  The connector of claim C3, read off the claim and not off the code: the cases in the
  order the claim gives them, on the lower-cased text between two tokens.
\<close>

definition connector_claimed :: "string \<Rightarrow> connector" where
  "connector_claimed between =
     (if contains ''and/or'' between then ConnOR
      else if has_word ''and'' between \<and> \<not> contains ''and/or'' between then ConnAND
      else if has_word ''or'' between then ConnOR
      else if contains '','' between \<and> \<not> has_word ''and'' between \<and> \<not> has_word ''or'' between
        then ConnLIST
      else ConnUNKNOWN)"

text \<open>
  The phrase of claim C1: the six characters at offset \<open>p\<close> are \<open>one of\<close> or
  \<open>any of\<close> in any case, as whole words.
\<close>

definition phrase_at :: "string \<Rightarrow> nat \<Rightarrow> bool" where
  "phrase_at t p =
     ((lower (slice t p (p + 6)) = ''one of'' \<or> lower (slice t p (p + 6)) = ''any of'')
      \<and> word_boundary t p \<and> word_boundary t (p + 6))"

text \<open>
  The course-token pattern of claim C6 in the claim's words: two to four upper-case
  letters, optional whitespace, two or three digits and at most one upper-case letter,
  as a whole word. \<open>course_token_at text i ref\<close>: such a match starts at offset \<open>i\<close>
  of \<open>text\<close>, with \<open>nl\<close> letters, \<open>nw\<close> whitespace characters, \<open>nd\<close> digits and
  \<open>nu\<close> trailing letters, and \<open>ref\<close> is its letters, one blank, and its digits with
  the trailing letter.
\<close>

definition course_shape :: "string \<Rightarrow> string \<Rightarrow> string \<Rightarrow> string \<Rightarrow> bool" where
  "course_shape L W D U \<longleftrightarrow>
     2 \<le> length L \<and> length L \<le> 4 \<and> list_all is_upper L \<and> list_all is_space W
     \<and> 2 \<le> length D \<and> length D \<le> 3 \<and> list_all is_digit D
     \<and> length U \<le> 1 \<and> list_all is_upper U"

definition course_token_at :: "string \<Rightarrow> nat \<Rightarrow> string \<Rightarrow> bool" where
  "course_token_at text i ref \<longleftrightarrow>
     list_ex (\<lambda>nl. list_ex (\<lambda>nw. list_ex (\<lambda>nd. list_ex (\<lambda>nu.
       (let j = i + nl; k = j + nw; l = k + nd; e = l + nu in
        e \<le> length text
        \<and> course_shape (slice text i j) (slice text j k) (slice text k l) (slice text l e)
        \<and> ref = slice text i j @ '' '' @ slice text k e
        \<and> word_boundary text i \<and> word_boundary text e))
       [0, 1]) [2, 3]) [0..<Suc (length text)]) [2, 3, 4]"

definition course_token_in :: "string \<Rightarrow> string \<Rightarrow> bool" where
  "course_token_in text ref \<longleftrightarrow> list_ex (\<lambda>i. course_token_at text i ref) [0..<Suc (length text)]"

text \<open>The course references at the \<open>COURSE\<close> leaves of a tree, from left to right.\<close>

fun leaves :: "node \<Rightarrow> string list" where
  "leaves EMPTY = []"
| "leaves (COURSE c) = [c]"
| "leaves (AND items) = concat (map leaves items)"
| "leaves (OR items) = concat (map leaves items)"

text \<open>
  The words of claim C10. A text contains a phrase as a case-insensitive substring at an
  offset when its characters from that offset on, in lower case, are the phrase; it contains
  the phrase when it does at some offset. The phrase is contained and ended when, at some
  offset, no word character (\<open>is_word\<close>: a letter, a digit or an underscore) follows it in
  the text.
\<close>

definition phrase_ci_at :: "string \<Rightarrow> string \<Rightarrow> nat \<Rightarrow> bool" where
  "phrase_ci_at phrase text i \<longleftrightarrow> lower (slice text i (i + length phrase)) = phrase"

definition phrase_ci_in :: "string \<Rightarrow> string \<Rightarrow> bool" where
  "phrase_ci_in phrase text \<longleftrightarrow> list_ex (phrase_ci_at phrase text) [0..<Suc (length text)]"

definition phrase_ci_ended_in :: "string \<Rightarrow> string \<Rightarrow> bool" where
  "phrase_ci_ended_in phrase text \<longleftrightarrow>
     list_ex (\<lambda>i. phrase_ci_at phrase text i \<and> \<not> word_at text (i + length phrase))
       [0..<Suc (length text)]"

section \<open>Facts about the matchers\<close>

lemma first_some_None_iff: "first_some f xs = None \<longleftrightarrow> (\<forall>x \<in> set xs. f x = None)"
  by (induction xs) (auto split: option.splits)

lemma first_some_SomeD: "first_some f xs = Some y \<Longrightarrow> \<exists>x \<in> set xs. f x = Some y"
  by (induction xs) (auto split: option.splits)

lemma first_some_append:
  "first_some f (xs @ ys) = (case first_some f xs of Some y \<Rightarrow> Some y | None \<Rightarrow> first_some f ys)"
  by (induction xs) (auto split: option.splits)

lemma upt_Suc_ex: "(\<exists>i \<in> set [0..<Suc n]. P i) \<longleftrightarrow> (\<exists>i \<le> n. P i)"
  unfolding set_upt by (auto simp: less_Suc_eq_le)

lemma upt_Suc_all: "(\<forall>i \<in> set [0..<Suc n]. P i) \<longleftrightarrow> (\<forall>i \<le> n. P i)"
  unfolding set_upt by (auto simp: less_Suc_eq_le)

lemma re_search_None_iff: "re_search m t = None \<longleftrightarrow> (\<forall>i \<le> length t. m t i = None)"
  unfolding re_search_def first_some_None_iff upt_Suc_all by simp

lemma first_some_upt_Some:
  "first_some f [a..<b] = Some y \<longleftrightarrow> (\<exists>i. a \<le> i \<and> i < b \<and> f i = Some y \<and> (\<forall>j. a \<le> j \<and> j < i \<longrightarrow> f j = None))"
proof (induction "b - a" arbitrary: a)
  case 0
  then show ?case by auto
next
  case (Suc n)
  then have ab: "a < b" and n: "n = b - Suc a" by auto
  have upt: "[a..<b] = a # [Suc a..<b]" using ab by (simp add: upt_conv_Cons)
  show ?case
  proof (cases "f a")
    case None
    have "first_some f [a..<b] = first_some f [Suc a..<b]" using None upt by simp
    also have "\<dots> = Some y \<longleftrightarrow> (\<exists>i. Suc a \<le> i \<and> i < b \<and> f i = Some y \<and> (\<forall>j. Suc a \<le> j \<and> j < i \<longrightarrow> f j = None))"
      using Suc.hyps(1) [OF n] .
    also have "\<dots> \<longleftrightarrow> (\<exists>i. a \<le> i \<and> i < b \<and> f i = Some y \<and> (\<forall>j. a \<le> j \<and> j < i \<longrightarrow> f j = None))"
      using None by (metis Suc_leD Suc_leI le_neq_implies_less option.distinct(1))
    finally show ?thesis .
  next
    case (Some z)
    have "first_some f [a..<b] = Some z" using Some upt by simp
    moreover have "(\<exists>i. a \<le> i \<and> i < b \<and> f i = Some y \<and> (\<forall>j. a \<le> j \<and> j < i \<longrightarrow> f j = None)) \<longleftrightarrow> z = y"
    proof
      assume "\<exists>i. a \<le> i \<and> i < b \<and> f i = Some y \<and> (\<forall>j. a \<le> j \<and> j < i \<longrightarrow> f j = None)"
      then obtain i where i: "a \<le> i" "f i = Some y" "\<forall>j. a \<le> j \<and> j < i \<longrightarrow> f j = None" by blast
      have "i = a"
      proof (rule ccontr)
        assume "i \<noteq> a"
        then have "a < i" using i(1) by simp
        then have "f a = None" using i(3) by simp
        then show False using Some by simp
      qed
      then show "z = y" using Some i(2) by simp
    next
      assume "z = y"
      then show "\<exists>i. a \<le> i \<and> i < b \<and> f i = Some y \<and> (\<forall>j. a \<le> j \<and> j < i \<longrightarrow> f j = None)"
        using Some ab by (intro exI [of _ a]) auto
    qed
    ultimately show ?thesis by auto
  qed
qed

lemma re_search_Some_iff:
  "re_search m t = Some (i, r) \<longleftrightarrow> i \<le> length t \<and> m t i = Some r \<and> (\<forall>j < i. m t j = None)"
  unfolding re_search_def first_some_upt_Some by (auto simp: less_Suc_eq_le)

lemma contains_iff: "contains w s \<longleftrightarrow> (\<exists>p q. s = p @ w @ q)"
proof
  assume "contains w s"
  then obtain i where i: "take (length w) (drop i s) = w"
    unfolding contains_def list_ex_iff by blast
  have "s = take i s @ take (length w) (drop i s) @ drop (length w) (drop i s)"
    by (simp only: append_take_drop_id)
  then show "\<exists>p q. s = p @ w @ q" using i by metis
next
  assume "\<exists>p q. s = p @ w @ q"
  then obtain p q where "s = p @ w @ q" by blast
  then have "length p \<le> length s" "take (length w) (drop (length p) s) = w" by auto
  then show "contains w s" unfolding contains_def list_ex_iff upt_Suc_ex by blast
qed

lemma slice_eq_iff: "slice t i (i + length w) = w \<longleftrightarrow> take (length w) (drop i t) = w"
  by (simp add: slice_def)

lemma alts_lit_None_iff:
  "alts (map lit pat) t i Some = None \<longleftrightarrow> (\<forall>w \<in> set pat. take (length w) (drop i t) \<noteq> w)"
  by (induction pat) (auto simp: lit_def slice_eq_iff split: option.splits)

lemma search_alternation_iff: "search_alternation pat t \<longleftrightarrow> list_ex (\<lambda>w. contains w t) pat"
  unfolding search_alternation_def re_search_None_iff alts_lit_None_iff contains_def list_ex_iff upt_Suc_ex
  by blast

lemma space_not_word: "is_space c \<Longrightarrow> \<not> is_word c"
  unfolding is_space_def is_word_def Let_def by presburger

lemma upper_word: "is_upper c \<Longrightarrow> is_word c"
  unfolding is_upper_def is_word_def Let_def by presburger

lemma digit_word: "is_digit c \<Longrightarrow> is_word c"
  unfolding is_digit_def is_word_def Let_def by presburger

lemma upper_not_space: "is_upper c \<Longrightarrow> \<not> is_space c"
  unfolding is_upper_def is_space_def by presburger

lemma digit_not_space: "is_digit c \<Longrightarrow> \<not> is_space c"
  unfolding is_digit_def is_space_def by presburger

lemma space_lower: "is_space c \<Longrightarrow> char_lower c = c"
proof -
  assume "is_space c"
  then have "\<not> ((65 \<le> code c \<and> code c \<le> 90) \<or> (192 \<le> code c \<and> code c \<le> 214)
      \<or> (216 \<le> code c \<and> code c \<le> 222))"
    unfolding is_space_def by presburger
  then show ?thesis unfolding char_lower_def Let_def by (simp only: if_False)
qed

lemma lower_not_space: "\<not> is_space (char_lower c) \<Longrightarrow> \<not> is_space c"
  using space_lower [of c] by auto

lemma lower_word: "is_word (char_lower c) \<Longrightarrow> is_word c"
proof (cases "(65 \<le> code c \<and> code c \<le> 90) \<or> (192 \<le> code c \<and> code c \<le> 214)
      \<or> (216 \<le> code c \<and> code c \<le> 222)")
  case True
  then show ?thesis unfolding is_word_def Let_def by presburger
next
  case False
  then have "char_lower c = c" unfolding char_lower_def Let_def by (simp only: if_False)
  moreover assume "is_word (char_lower c)"
  ultimately show ?thesis by simp
qed

lemma comma_class: "\<not> is_word CHR '',''" "\<not> is_space CHR '',''" "\<not> is_upper CHR '',''" "\<not> is_digit CHR '',''"
  by code_simp+

lemma semicolon_class: "\<not> is_word CHR '';''" "\<not> is_space CHR '';''" "\<not> is_upper CHR '';''" "\<not> is_digit CHR '';''"
  by code_simp+

lemma rev_split: "q = rev (dropWhile P (rev q)) @ rev (takeWhile P (rev q))"
proof -
  have "rev q = takeWhile P (rev q) @ dropWhile P (rev q)"
    by (simp only: takeWhile_dropWhile_id)
  then have "rev (rev q) = rev (takeWhile P (rev q) @ dropWhile P (rev q))"
    by (rule arg_cong)
  then show ?thesis by (simp only: rev_rev_ident rev_append)
qed

lemma strip_decomp:
  "\<exists>l r. s = l @ strip s @ r \<and> list_all is_space l \<and> list_all is_space r"
proof -
  define s' where "s' = dropWhile is_space s"
  have 1: "s = takeWhile is_space s @ s'" by (simp add: s'_def)
  have 2: "s' = strip s @ rev (takeWhile is_space (rev s'))"
    using rev_split [of s' is_space] by (simp only: strip_def s'_def)
  have 3: "list_all is_space (takeWhile is_space s)"
    by (simp add: list_all_iff) (meson set_takeWhileD)
  have 4: "list_all is_space (rev (takeWhile is_space (rev s')))"
    by (simp add: list_all_iff) (meson set_takeWhileD)
  from 1 2 have "s = takeWhile is_space s @ strip s @ rev (takeWhile is_space (rev s'))" by simp
  with 3 4 show ?thesis by blast
qed

lemma strip_ends:
  "strip s = [] \<or> (\<not> is_space (hd (strip s)) \<and> \<not> is_space (last (strip s)))"
proof (cases "strip s = []")
  case True then show ?thesis by simp
next
  case False
  define s' where "s' = dropWhile is_space s"
  have st: "strip s = rev (dropWhile is_space (rev s'))" by (simp add: strip_def s'_def)
  have ne: "dropWhile is_space (rev s') \<noteq> []" using False st by simp
  have l: "\<not> is_space (last (strip s))"
    unfolding st using ne by (simp add: last_rev hd_dropWhile)
  have s'ne: "s' \<noteq> []" using ne by auto
  have "s' = strip s @ rev (takeWhile is_space (rev s'))"
    using rev_split [of s' is_space] by (simp only: st)
  then have "hd s' = hd (strip s)" using False by (metis hd_append2)
  moreover have "\<not> is_space (hd s')" using s'ne unfolding s'_def by (simp add: hd_dropWhile)
  ultimately show ?thesis using l by simp
qed

text \<open>A text that occurs in \<open>s\<close> and has no whitespace at its two ends occurs in \<open>strip s\<close>.\<close>

lemma strip_keeps:
  assumes s: "s = p @ x @ q" and x: "x \<noteq> []" "\<not> is_space (hd x)" "\<not> is_space (last x)"
  shows "\<exists>p' q'. strip s = p' @ x @ q' \<and> (p' = [] \<or> (p \<noteq> [] \<and> last p' = last p))
           \<and> (q' = [] \<or> (q \<noteq> [] \<and> hd q' = hd q))"
proof -
  have d: "dropWhile is_space s = dropWhile is_space p @ x @ q"
  proof (cases "\<forall>c \<in> set p. is_space c")
    case True
    then have "dropWhile is_space s = dropWhile is_space (x @ q)"
      unfolding s by (simp add: dropWhile_append)
    also have "\<dots> = x @ q" using x by (cases x) auto
    finally show ?thesis using True by simp
  next
    case False
    then show ?thesis unfolding s by (auto simp: dropWhile_append)
  qed
  define p' where "p' = dropWhile is_space p"
  have r: "rev (dropWhile is_space s) = rev q @ rev x @ rev p'"
    by (simp add: d p'_def)
  have "dropWhile is_space (rev q @ rev x @ rev p') = dropWhile is_space (rev q) @ rev x @ rev p'"
  proof (cases "\<forall>c \<in> set (rev q). is_space c")
    case True
    then have "dropWhile is_space (rev q @ rev x @ rev p') = dropWhile is_space (rev x @ rev p')"
      by (simp add: dropWhile_append)
    also have "\<dots> = rev x @ rev p'"
      using x by (cases "rev x") (auto simp: hd_rev)
    finally show ?thesis using True by simp
  next
    case False
    then show ?thesis by (auto simp: dropWhile_append)
  qed
  then have st: "strip s = p' @ x @ rev (dropWhile is_space (rev q))"
    unfolding strip_def r by simp
  define q' where "q' = rev (dropWhile is_space (rev q))"
  have pp: "p' = [] \<or> (p \<noteq> [] \<and> last p' = last p)"
  proof (cases "p' = []")
    case False
    then have "p \<noteq> []" by (auto simp: p'_def)
    moreover have "p = takeWhile is_space p @ p'" by (simp add: p'_def)
    then have "last p = last p'" using False by (metis last_appendR)
    ultimately show ?thesis by simp
  qed simp
  have qq: "q' = [] \<or> (q \<noteq> [] \<and> hd q' = hd q)"
  proof (cases "q' = []")
    case False
    then have "q \<noteq> []" by (auto simp: q'_def)
    moreover have "q = q' @ rev (takeWhile is_space (rev q))"
      using rev_split [of q is_space] by (simp only: q'_def)
    then have "hd q = hd q'" using False by (metis hd_append2)
    ultimately show ?thesis by simp
  qed simp
  from st pp qq show ?thesis unfolding q'_def by blast
qed

lemma blank_space: "is_space CHR '' ''"
  by code_simp

lemma sub_spaces_append_nonspace:
  "\<not> is_space c \<Longrightarrow> sub_spaces (xs @ c # ys) = sub_spaces xs @ c # sub_spaces ys"
  by (induction xs rule: sub_spaces.induct) (simp_all add: dropWhile_append3)

lemma sub_spaces_nonspace_prefix:
  "list_all (\<lambda>c. \<not> is_space c) xs \<Longrightarrow> sub_spaces (xs @ ys) = xs @ sub_spaces ys"
  by (induction xs) simp_all

lemma sub_spaces_Nil_iff: "sub_spaces x = [] \<longleftrightarrow> x = []"
  by (cases x) simp_all

lemma sub_spaces_all_space:
  "list_all is_space w \<Longrightarrow> sub_spaces w = (if w = [] then [] else '' '')"
proof (cases w)
  case (Cons c cs)
  assume "list_all is_space w"
  then have "is_space c" "\<forall>x \<in> set cs. is_space x"
    using Cons by (auto simp: list_all_iff)
  then have c: "is_space c" and dn: "dropWhile is_space cs = []"
    by (simp_all add: dropWhile_eq_Nil_conv)
  have "sub_spaces (c # cs) = CHR '' '' # sub_spaces (dropWhile is_space cs)"
    using c by simp
  also have "\<dots> = '' ''" by (simp only: dn sub_spaces.simps)
  finally show ?thesis using Cons by simp
qed simp

lemma sub_spaces_split:
  "sub_spaces s = a @ b \<Longrightarrow> \<exists>s1 s2. s = s1 @ s2 \<and> sub_spaces s1 = a \<and> sub_spaces s2 = b"
proof (induction s arbitrary: a rule: sub_spaces.induct)
  case 1
  then show ?case by simp
next
  case (2 c cs)
  show ?case
  proof (cases a)
    case Nil
    then have "c # cs = [] @ (c # cs) \<and> sub_spaces [] = a \<and> sub_spaces (c # cs) = b"
      using "2.prems" by simp
    then show ?thesis by blast
  next
    case (Cons x a')
    show ?thesis
    proof (cases "is_space c")
      case True
      define d where "d = dropWhile is_space cs"
      have "sub_spaces d = a' @ b" using "2.prems" True Cons by (simp add: d_def)
      from "2.IH"(1) [OF True this [unfolded d_def]]
      obtain d1 d2 where d: "d = d1 @ d2" "sub_spaces d1 = a'" "sub_spaces d2 = b"
        unfolding d_def by blast
      have x: "x = CHR '' ''" using "2.prems" True Cons by simp
      have hd_d: "d1 \<noteq> [] \<Longrightarrow> \<not> is_space (hd d1)"
      proof -
        assume ne: "d1 \<noteq> []"
        then have "d \<noteq> []" "hd d = hd d1" using d(1) by auto
        then show ?thesis unfolding d_def using hd_dropWhile [of is_space cs] by auto
      qed
      have dw: "dropWhile is_space (takeWhile is_space cs @ d1) = d1"
      proof (cases d1)
        case Nil
        then show ?thesis by (simp add: dropWhile_append) (meson set_takeWhileD)
      next
        case (Cons y ys)
        then have "\<not> is_space y" using hd_d by simp
        then have "dropWhile is_space (takeWhile is_space cs @ y # ys)
            = dropWhile is_space (takeWhile is_space cs) @ y # ys"
          by (rule dropWhile_append3)
        also have "dropWhile is_space (takeWhile is_space cs) = []"
          by (simp add: dropWhile_eq_Nil_conv) (meson set_takeWhileD)
        finally show ?thesis using Cons by simp
      qed
      have "cs = takeWhile is_space cs @ d" unfolding d_def by simp
      then have "c # cs = (c # takeWhile is_space cs @ d1) @ d2"
        using d(1) by simp
      moreover have "sub_spaces (c # takeWhile is_space cs @ d1) = a"
        using True dw d(2) x Cons by simp
      ultimately show ?thesis using d(3) by blast
    next
      case False
      then have "sub_spaces cs = a' @ b" and x: "x = c" using "2.prems" Cons by simp_all
      from "2.IH"(2) [OF False this(1)]
      obtain s1 s2 where s: "cs = s1 @ s2" "sub_spaces s1 = a'" "sub_spaces s2 = b" by blast
      have "c # cs = (c # s1) @ s2" using s(1) by simp
      moreover have "sub_spaces (c # s1) = a" using False s(2) x Cons by simp
      ultimately show ?thesis using s(3) by blast
    qed
  qed
qed

lemma sub_spaces_nonspace_back:
  "list_all (\<lambda>c. \<not> is_space c) (sub_spaces x) \<Longrightarrow> sub_spaces x = x"
  by (induction x rule: sub_spaces.induct) (auto simp: blank_space)

lemma sub_spaces_space_back:
  "list_all is_space (sub_spaces x) \<Longrightarrow> list_all is_space x"
proof (induction x rule: sub_spaces.induct)
  case 1
  then show ?case by simp
next
  case (2 c cs)
  show ?case
  proof (cases "is_space c")
    case True
    then have "list_all is_space (sub_spaces (dropWhile is_space cs))" using "2.prems" by simp
    from "2.IH"(1) [OF True this] have "list_all is_space (dropWhile is_space cs)" .
    moreover have "cs = takeWhile is_space cs @ dropWhile is_space cs" by simp
    moreover have "list_all is_space (takeWhile is_space cs)"
      by (simp add: list_all_iff) (meson set_takeWhileD)
    ultimately have "list_all is_space cs" by (metis list_all_append)
    then show ?thesis using True by simp
  next
    case False
    then show ?thesis using "2.prems" by simp
  qed
qed

lemma split_runs_unfold:
  "split_runs sep s =
     (if dropWhile (\<lambda>c. c \<noteq> sep) s = [] then [takeWhile (\<lambda>c. c \<noteq> sep) s]
      else takeWhile (\<lambda>c. c \<noteq> sep) s
           # split_runs sep (dropWhile (\<lambda>c. c = sep) (dropWhile (\<lambda>c. c \<noteq> sep) s)))"
  by (subst split_runs.simps) (simp add: Let_def)

lemma split_runs_last:
  assumes "dropWhile (\<lambda>c. c \<noteq> sep) s = []"
  shows "split_runs sep s = [takeWhile (\<lambda>c. c \<noteq> sep) s]"
proof -
  have "split_runs sep s =
     (if dropWhile (\<lambda>c. c \<noteq> sep) s = [] then [takeWhile (\<lambda>c. c \<noteq> sep) s]
      else takeWhile (\<lambda>c. c \<noteq> sep) s
           # split_runs sep (dropWhile (\<lambda>c. c = sep) (dropWhile (\<lambda>c. c \<noteq> sep) s)))"
    by (rule split_runs_unfold)
  then show ?thesis by (simp only: assms if_True simp_thms)
qed

lemma split_runs_more:
  assumes "dropWhile (\<lambda>c. c \<noteq> sep) s \<noteq> []"
  shows "split_runs sep s = takeWhile (\<lambda>c. c \<noteq> sep) s
           # split_runs sep (dropWhile (\<lambda>c. c = sep) (dropWhile (\<lambda>c. c \<noteq> sep) s))"
proof -
  have "split_runs sep s =
     (if dropWhile (\<lambda>c. c \<noteq> sep) s = [] then [takeWhile (\<lambda>c. c \<noteq> sep) s]
      else takeWhile (\<lambda>c. c \<noteq> sep) s
           # split_runs sep (dropWhile (\<lambda>c. c = sep) (dropWhile (\<lambda>c. c \<noteq> sep) s)))"
    by (rule split_runs_unfold)
  then show ?thesis using assms by (simp only: if_False simp_thms)
qed

lemma takeWhile_all: "list_all P (takeWhile P xs)"
  by (simp add: list_all_iff) (meson set_takeWhileD)

lemma split_runs_piece:
  "piece \<in> set (split_runs sep s) \<Longrightarrow>
     \<exists>a b. s = a @ piece @ b \<and> (a = [] \<or> last a = sep) \<and> (b = [] \<or> hd b = sep)"
proof (induction sep s rule: split_runs.induct)
  case (1 sep s)
  define tw where "tw = takeWhile (\<lambda>c. c \<noteq> sep) s"
  define rest where "rest = dropWhile (\<lambda>c. c \<noteq> sep) s"
  have s: "s = tw @ rest" by (simp add: tw_def rest_def)
  show ?case
  proof (cases "rest = []")
    case True
    then have "split_runs sep s = [tw]" unfolding rest_def tw_def by (rule split_runs_last)
    then have "piece = s" using "1.prems" s True by simp
    then have "s = [] @ piece @ []" by simp
    then show ?thesis by blast
  next
    case False
    define sw where "sw = takeWhile (\<lambda>c. c = sep) rest"
    define rest' where "rest' = dropWhile (\<lambda>c. c = sep) rest"
    have hd: "hd rest = sep" using False hd_dropWhile [of "\<lambda>c. c \<noteq> sep" s] by (auto simp: rest_def)
    have r: "rest = sw @ rest'" by (simp add: sw_def rest'_def)
    have swne: "sw \<noteq> []" using False hd by (cases rest) (auto simp: sw_def)
    have "list_all (\<lambda>c. c = sep) sw" unfolding sw_def by (rule takeWhile_all)
    then have lsw: "last sw = sep" using swne by (auto simp: list_all_iff)
    have "split_runs sep s = tw # split_runs sep rest'"
      unfolding rest'_def rest_def tw_def using False [unfolded rest_def] by (rule split_runs_more)
    with "1.prems" have "piece = tw \<or> piece \<in> set (split_runs sep rest')"
      by simp
    then show ?thesis
    proof
      assume "piece = tw"
      then have "s = [] @ piece @ rest" using s by simp
      then show ?thesis using hd by blast
    next
      assume "piece \<in> set (split_runs sep rest')"
      from "1.IH" [OF rest_def False this [unfolded rest'_def]]
      obtain a b where ab: "rest' = a @ piece @ b" "a = [] \<or> last a = sep" "b = [] \<or> hd b = sep"
        unfolding rest'_def by blast
      have "s = (tw @ sw @ a) @ piece @ b" using s r ab(1) by simp
      moreover have "last (tw @ sw @ a) = sep"
      proof (cases "a = []")
        case True
        then show ?thesis using lsw swne by simp
      next
        case False
        then show ?thesis using ab(2) by simp
      qed
      ultimately show ?thesis using ab(3) by blast
    qed
  qed
qed

lemma split_runs_covers:
  assumes "s = pre @ x @ post" and "x \<noteq> []" and "sep \<notin> set x"
  shows "\<exists>piece \<in> set (split_runs sep s). \<exists>a b. piece = a @ x @ b
           \<and> (a = [] \<or> (pre \<noteq> [] \<and> last a = last pre))
           \<and> (b = [] \<or> (post \<noteq> [] \<and> hd b = hd post))"
  using assms
proof (induction sep s arbitrary: pre rule: split_runs.induct)
  case (1 sep s)
  define tw where "tw = takeWhile (\<lambda>c. c \<noteq> sep) s"
  define rest where "rest = dropWhile (\<lambda>c. c \<noteq> sep) s"
  have first: "tw \<in> set (split_runs sep s)"
  proof (cases "dropWhile (\<lambda>c. c \<noteq> sep) s = []")
    case True
    show ?thesis unfolding split_runs_last [OF True] tw_def by simp
  next
    case False
    show ?thesis unfolding split_runs_more [OF False] tw_def by simp
  qed
  show ?case
  proof (cases "sep \<in> set pre")
    case False
    then have "\<forall>c \<in> set (pre @ x). c \<noteq> sep" using "1.prems" by auto
    then have "tw = pre @ x @ takeWhile (\<lambda>c. c \<noteq> sep) post"
      unfolding tw_def "1.prems"(1) by (simp add: takeWhile_append)
    moreover have "takeWhile (\<lambda>c. c \<noteq> sep) post = [] \<or>
        (post \<noteq> [] \<and> hd (takeWhile (\<lambda>c. c \<noteq> sep) post) = hd post)"
      by (cases post) auto
    ultimately show ?thesis using first by blast
  next
    case True
    then obtain p1 p2 where p: "pre = p1 @ sep # p2" "sep \<notin> set p1"
      using split_list_first [of sep pre] by blast
    have tw: "tw = p1" and rest: "rest = sep # p2 @ x @ post"
      unfolding tw_def rest_def "1.prems"(1) p(1) using p(2)
      by (simp_all add: takeWhile_append dropWhile_append)
    define pre2 where "pre2 = dropWhile (\<lambda>c. c = sep) p2"
    have hx: "hd x \<noteq> sep" using "1.prems"(2,3) by (cases x) auto
    have r': "dropWhile (\<lambda>c. c = sep) rest = pre2 @ x @ post"
    proof (cases "\<forall>c \<in> set p2. c = sep")
      case True
      then have "dropWhile (\<lambda>c. c = sep) rest = dropWhile (\<lambda>c. c = sep) (x @ post)"
        unfolding rest by (simp add: dropWhile_append)
      also have "\<dots> = x @ post" using hx "1.prems"(2) by (cases x) auto
      finally show ?thesis using True by (simp add: pre2_def)
    next
      case False
      then show ?thesis unfolding rest pre2_def by (auto simp: dropWhile_append)
    qed
    have rne: "rest \<noteq> []" using rest by simp
    from "1.IH" [OF rest_def rne r' "1.prems"(2,3)]
    obtain piece a b where pc: "piece \<in> set (split_runs sep (dropWhile (\<lambda>c. c = sep) rest))"
        "piece = a @ x @ b" "a = [] \<or> (pre2 \<noteq> [] \<and> last a = last pre2)"
        "b = [] \<or> (post \<noteq> [] \<and> hd b = hd post)"
      by blast
    have "split_runs sep s = tw # split_runs sep (dropWhile (\<lambda>c. c = sep) rest)"
      unfolding rest_def tw_def using rne [unfolded rest_def] by (rule split_runs_more)
    then have "piece \<in> set (split_runs sep s)"
      using pc(1) by simp
    moreover have "a = [] \<or> (pre \<noteq> [] \<and> last a = last pre)"
    proof (cases "a = []")
      case False
      then have ne: "pre2 \<noteq> []" and la: "last a = last pre2" using pc(3) by auto
      have "p2 = takeWhile (\<lambda>c. c = sep) p2 @ pre2" by (simp add: pre2_def)
      then have "last p2 = last pre2" using ne by (metis last_appendR)
      moreover have "p2 \<noteq> []" using ne by (auto simp: pre2_def)
      ultimately have "last pre = last pre2" using p(1) by simp
      then show ?thesis using la p(1) by simp
    qed simp
    ultimately show ?thesis using pc(2,4) by blast
  qed
qed

section \<open>Slices and word boundaries of a text in parts\<close>

lemma slice_mid: "t = pre @ x @ rest \<Longrightarrow> slice t (length pre) (length pre + length x) = x"
  by (simp add: slice_def)

lemma slice_parts:
  assumes "i \<le> j" "j \<le> length t"
  shows "t = take i t @ slice t i j @ drop j t"
proof -
  have "drop i t = take (j - i) (drop i t) @ drop (j - i) (drop i t)"
    by (simp only: append_take_drop_id)
  also have "drop (j - i) (drop i t) = drop j t" using assms by simp
  finally have "drop i t = slice t i j @ drop j t" by (simp only: slice_def)
  then have "take i t @ drop i t = take i t @ slice t i j @ drop j t" by (simp only:)
  then show ?thesis by (simp only: append_take_drop_id)
qed

lemma slice_append:
  assumes "i \<le> j" "j \<le> k"
  shows "slice t i k = slice t i j @ slice t j k"
proof -
  have k: "k - i = (j - i) + (k - j)" using assms by simp
  have "take (k - i) (drop i t) = take (j - i) (drop i t) @ take (k - j) (drop (j - i) (drop i t))"
    unfolding k by (rule take_add)
  moreover have "drop (j - i) (drop i t) = drop j t" using assms by simp
  ultimately show ?thesis by (simp add: slice_def)
qed

lemma word_boundary_zip:
  "word_boundary (a @ b) (length a) \<longleftrightarrow> ((a \<noteq> [] \<and> is_word (last a)) \<noteq> (b \<noteq> [] \<and> is_word (hd b)))"
proof -
  have 1: "word_before (a @ b) (length a) \<longleftrightarrow> a \<noteq> [] \<and> is_word (last a)"
    by (cases "a = []") (auto simp: word_before_def nth_append last_conv_nth)
  have 2: "word_at (a @ b) (length a) \<longleftrightarrow> b \<noteq> [] \<and> is_word (hd b)"
    by (cases b) (auto simp: word_at_def nth_append)
  show ?thesis unfolding word_boundary_def 1 2 ..
qed

section \<open>Course tokens under strip, normalisation and splitting\<close>

lemma shape_ends:
  assumes "course_shape L W D U"
  shows "L @ W @ D @ U \<noteq> []" "is_upper (hd (L @ W @ D @ U))"
    "is_word (last (L @ W @ D @ U))" "\<not> is_space (last (L @ W @ D @ U))"
proof -
  from assms have L: "L \<noteq> []" "list_all is_upper L" and D: "D \<noteq> []" "list_all is_digit D"
    and U: "list_all is_upper U"
    unfolding course_shape_def by auto
  show "L @ W @ D @ U \<noteq> []" using L by simp
  show "is_upper (hd (L @ W @ D @ U))" using L by (cases L) auto
  have l: "last (L @ W @ D @ U) = last (D @ U)" using D by simp
  have "is_upper (last (D @ U)) \<or> is_digit (last (D @ U))"
  proof (cases "U = []")
    case True
    then show ?thesis using D by (simp add: list_all_iff)
  next
    case False
    then show ?thesis using U by (simp add: list_all_iff)
  qed
  then show "is_word (last (L @ W @ D @ U))" "\<not> is_space (last (L @ W @ D @ U))"
    unfolding l using upper_word digit_word upper_not_space digit_not_space by blast+
qed

text \<open>
  The pattern matches at an offset exactly when the text splits there into letters,
  whitespace, digits and trailing letter, with no word character before or after.
\<close>

lemma shape_frame:
  assumes sh: "course_shape L W D U"
  shows "word_boundary (pre @ L @ W @ D @ U @ post) (length pre)
           \<longleftrightarrow> pre = [] \<or> \<not> is_word (last pre)"
    and "word_boundary ((pre @ L @ W @ D @ U) @ post) (length (pre @ L @ W @ D @ U))
           \<longleftrightarrow> post = [] \<or> \<not> is_word (hd post)"
proof -
  note en = shape_ends [OF sh]
  have Lne: "L \<noteq> []" using sh unfolding course_shape_def by auto
  have "hd (L @ W @ D @ U @ post) = hd (L @ W @ D @ U)" using Lne by simp
  then have h: "is_word (hd (L @ W @ D @ U @ post))" using en(2) upper_word by simp
  have ne: "L @ W @ D @ U @ post \<noteq> []" using Lne by simp
  show "word_boundary (pre @ L @ W @ D @ U @ post) (length pre)
           \<longleftrightarrow> pre = [] \<or> \<not> is_word (last pre)"
    unfolding word_boundary_zip using h ne by blast
  have "last (pre @ L @ W @ D @ U) = last (L @ W @ D @ U)"
    using en(1) by (metis last_appendR)
  then have l: "is_word (last (pre @ L @ W @ D @ U))" using en(3) by simp
  have ne': "pre @ L @ W @ D @ U \<noteq> []" using Lne by simp
  show "word_boundary ((pre @ L @ W @ D @ U) @ post) (length (pre @ L @ W @ D @ U))
           \<longleftrightarrow> post = [] \<or> \<not> is_word (hd post)"
    unfolding word_boundary_zip using l ne' by blast
qed

lemma course_token_at_splitI:
  assumes le: "e \<le> length text" and j: "j = i + nl" and k: "k = j + nw" and l: "l = k + nd"
    and e: "e = l + nu"
    and nl: "nl \<in> {2, 3, 4}" and nd: "nd \<in> {2, 3}" and nu: "nu \<in> {0, 1}"
    and sh: "course_shape (slice text i j) (slice text j k) (slice text k l) (slice text l e)"
    and ref: "ref = slice text i j @ '' '' @ slice text k e"
    and wb: "word_boundary text i" "word_boundary text e"
  shows "course_token_at text i ref"
proof -
  have "nw \<le> length text" using le j k l e by simp
  then have nw: "nw \<in> set [0..<Suc (length text)]" unfolding set_upt by simp
  have "(let j = i + nl; k = j + nw; l = k + nd; e = l + nu in
        e \<le> length text
        \<and> course_shape (slice text i j) (slice text j k) (slice text k l) (slice text l e)
        \<and> ref = slice text i j @ '' '' @ slice text k e
        \<and> word_boundary text i \<and> word_boundary text e)"
    unfolding Let_def using le sh ref wb unfolding j k l e by (intro conjI)
  moreover have "nl \<in> set [2, 3, 4]" "nd \<in> set [2, 3]" "nu \<in> set [0, 1]"
    using nl nd nu by simp_all
  ultimately show ?thesis unfolding course_token_at_def list_ex_iff using nw by blast
qed

lemma course_token_at_zipI:
  assumes t: "text = pre @ L @ W @ D @ U @ post" and sh: "course_shape L W D U"
    and pre: "pre = [] \<or> \<not> is_word (last pre)" and post: "post = [] \<or> \<not> is_word (hd post)"
  shows "course_token_at text (length pre) (L @ '' '' @ D @ U)"
proof -
  define j where "j = length pre + length L"
  define k where "k = j + length W"
  define l where "l = k + length D"
  define e where "e = l + length U"
  have 1: "slice text (length pre) j = L"
    unfolding j_def using slice_mid [of _ pre L "W @ D @ U @ post"] t by simp
  have 2: "slice text j k = W"
    unfolding j_def k_def using slice_mid [of _ "pre @ L" W "D @ U @ post"] t by simp
  have 3: "slice text k l = D"
    unfolding j_def k_def l_def using slice_mid [of _ "pre @ L @ W" D "U @ post"] t
    by (simp add: add.assoc)
  have 4: "slice text l e = U"
    unfolding j_def k_def l_def e_def using slice_mid [of _ "pre @ L @ W @ D" U post] t
    by (simp add: add.assoc)
  have 5: "slice text k e = D @ U"
    unfolding j_def k_def l_def e_def using slice_mid [of _ "pre @ L @ W" "D @ U" post] t
    by (simp add: add.assoc)
  have len: "length (pre @ L @ W @ D @ U) = e" by (simp add: j_def k_def l_def e_def)
  have le: "e \<le> length text" unfolding t using len by simp
  from sh have "2 \<le> length L \<and> length L \<le> 4" "2 \<le> length D \<and> length D \<le> 3"
    "length U \<le> 1"
    unfolding course_shape_def by simp_all
  then have n: "length L \<in> {2, 3, 4}" "length D \<in> {2, 3}" "length U \<in> {0, 1}"
    by (simp_all only: insert_iff empty_iff) presburger+
  note sf = shape_frame [OF sh]
  have wb: "word_boundary text (length pre)"
    unfolding t sf(1) using pre .
  have "word_boundary ((pre @ L @ W @ D @ U) @ post) (length (pre @ L @ W @ D @ U))"
    unfolding sf(2) using post .
  then have wbe: "word_boundary text e" unfolding len using t by simp
  show ?thesis
    by (rule course_token_at_splitI [OF le j_def k_def l_def e_def n])
       (simp_all add: 1 2 3 4 5 sh wb wbe)
qed

lemma course_token_at_zipE:
  assumes "course_token_at text i ref"
  obtains pre L W D U post where "text = pre @ L @ W @ D @ U @ post" "length pre = i"
    "ref = L @ '' '' @ D @ U" "course_shape L W D U"
    "pre = [] \<or> \<not> is_word (last pre)" "post = [] \<or> \<not> is_word (hd post)"
proof -
  from assms obtain nl nw nd nu where
    le: "i + nl + nw + nd + nu \<le> length text"
    and sh: "course_shape (slice text i (i + nl)) (slice text (i + nl) (i + nl + nw))
        (slice text (i + nl + nw) (i + nl + nw + nd))
        (slice text (i + nl + nw + nd) (i + nl + nw + nd + nu))"
    and ref: "ref = slice text i (i + nl) @ '' '' @ slice text (i + nl + nw) (i + nl + nw + nd + nu)"
    and wb: "word_boundary text i" and wbe: "word_boundary text (i + nl + nw + nd + nu)"
    unfolding course_token_at_def list_ex_iff Let_def by blast
  define j where "j = i + nl"
  define k where "k = j + nw"
  define l where "l = k + nd"
  define e where "e = l + nu"
  define Ls where "Ls = slice text i j"
  define Ws where "Ws = slice text j k"
  define Ds where "Ds = slice text k l"
  define Us where "Us = slice text l e"
  have ord: "i \<le> j" "j \<le> k" "k \<le> l" "l \<le> e" "e \<le> length text"
    using le by (simp_all add: j_def k_def l_def e_def)
  have sh': "course_shape Ls Ws Ds Us"
    using sh by (simp add: Ls_def Ws_def Ds_def Us_def j_def k_def l_def e_def)
  have sl: "slice text i e = Ls @ Ws @ Ds @ Us"
  proof -
    have "slice text i e = slice text i j @ slice text j e" using ord by (intro slice_append) simp_all
    also have "slice text j e = slice text j k @ slice text k e" using ord by (intro slice_append) simp_all
    also have "slice text k e = slice text k l @ slice text l e" using ord by (intro slice_append) simp_all
    finally show ?thesis by (simp add: Ls_def Ws_def Ds_def Us_def)
  qed
  have ke: "slice text k e = Ds @ Us"
    unfolding Ds_def Us_def using ord by (intro slice_append) simp_all
  have ie: "i \<le> e" using ord by simp
  have "text = take i text @ slice text i e @ drop e text"
    using ie ord(5) by (rule slice_parts)
  then have t: "text = take i text @ Ls @ Ws @ Ds @ Us @ drop e text"
    unfolding sl by simp
  have lp: "length (take i text) = i" using ord by simp
  have len: "length (take i text @ Ls @ Ws @ Ds @ Us) = e"
  proof -
    have "length (slice text i e) = e - i" using ord by (simp add: slice_def)
    then show ?thesis using lp sl ord by simp
  qed
  note sf = shape_frame [OF sh']
  have "word_boundary (take i text @ Ls @ Ws @ Ds @ Us @ drop e text) (length (take i text))"
    using wb t lp by simp
  then have pre: "take i text = [] \<or> \<not> is_word (last (take i text))"
    unfolding sf(1) .
  have "text = (take i text @ Ls @ Ws @ Ds @ Us) @ drop e text" using t by simp
  then have "word_boundary ((take i text @ Ls @ Ws @ Ds @ Us) @ drop e text)
      (length (take i text @ Ls @ Ws @ Ds @ Us))"
    using wbe len by (simp add: j_def k_def l_def e_def)
  then have post: "drop e text = [] \<or> \<not> is_word (hd (drop e text))"
    unfolding sf(2) .
  have r: "ref = Ls @ '' '' @ Ds @ Us"
    using ref ke by (simp add: Ls_def j_def k_def l_def e_def)
  show ?thesis using that [OF t lp r sh' pre post] .
qed

lemma course_token_at_le: "course_token_at text i ref \<Longrightarrow> i \<le> length text"
  by (erule course_token_at_zipE) simp

lemma course_token_in_iff: "course_token_in text ref \<longleftrightarrow> (\<exists>i. course_token_at text i ref)"
  unfolding course_token_in_def list_ex_iff upt_Suc_ex using course_token_at_le by blast

lemma course_token_inI:
  assumes "text = pre @ L @ W @ D @ U @ post" "course_shape L W D U"
    "pre = [] \<or> \<not> is_word (last pre)" "post = [] \<or> \<not> is_word (hd post)"
  shows "course_token_in text (L @ '' '' @ D @ U)"
  unfolding course_token_in_iff using course_token_at_zipI [OF assms] by blast

lemma course_token_inE:
  assumes "course_token_in text ref"
  obtains pre L W D U post where "text = pre @ L @ W @ D @ U @ post" "ref = L @ '' '' @ D @ U"
    "course_shape L W D U" "pre = [] \<or> \<not> is_word (last pre)" "post = [] \<or> \<not> is_word (hd post)"
proof -
  from assms obtain i where "course_token_at text i ref" unfolding course_token_in_iff by blast
  then show ?thesis by (rule course_token_at_zipE) (rule that)
qed

text \<open>A token of a part of a text, the part framed by characters that are no word characters.\<close>

lemma course_token_embed:
  assumes t: "t = a @ t' @ b" and a: "a = [] \<or> \<not> is_word (last a)"
    and b: "b = [] \<or> \<not> is_word (hd b)" and tok: "course_token_in t' ref"
  shows "course_token_in t ref"
proof -
  from tok obtain pre L W D U post where
    d: "t' = pre @ L @ W @ D @ U @ post" "ref = L @ '' '' @ D @ U" "course_shape L W D U"
      "pre = [] \<or> \<not> is_word (last pre)" "post = [] \<or> \<not> is_word (hd post)"
    by (rule course_token_inE)
  have 1: "t = (a @ pre) @ L @ W @ D @ U @ (post @ b)" using t d(1) by simp
  have 2: "a @ pre = [] \<or> \<not> is_word (last (a @ pre))" using a d(4) by (cases "pre = []") auto
  have 3: "post @ b = [] \<or> \<not> is_word (hd (post @ b))" using b d(5) by (cases "post = []") auto
  show ?thesis unfolding d(2) using course_token_inI [OF 1 d(3) 2 3] .
qed

text \<open>A token of a text that lies in a part of it, with the same neighbours.\<close>

lemma course_token_restrict:
  assumes t: "t = pre @ (L @ W @ D @ U) @ post" and sh: "course_shape L W D U"
    and pre: "pre = [] \<or> \<not> is_word (last pre)" and post: "post = [] \<or> \<not> is_word (hd post)"
    and t': "t' = a @ (L @ W @ D @ U) @ b"
    and a: "a = [] \<or> (pre \<noteq> [] \<and> last a = last pre)"
    and b: "b = [] \<or> (post \<noteq> [] \<and> hd b = hd post)"
  shows "course_token_in t' (L @ '' '' @ D @ U)"
proof -
  have 1: "t' = a @ L @ W @ D @ U @ b" using t' by simp
  have 2: "a = [] \<or> \<not> is_word (last a)" using a pre by auto
  have 3: "b = [] \<or> \<not> is_word (hd b)" using b post by auto
  show ?thesis using course_token_inI [OF 1 sh 2 3] .
qed

lemma course_token_strip_back: "course_token_in (strip s) ref \<Longrightarrow> course_token_in s ref"
proof -
  assume tok: "course_token_in (strip s) ref"
  obtain l r where lr: "s = l @ strip s @ r" "list_all is_space l" "list_all is_space r"
    using strip_decomp [of s] by blast
  have a: "l = [] \<or> \<not> is_word (last l)"
    using lr(2) space_not_word by (cases "l = []") (auto simp: list_all_iff)
  have b: "r = [] \<or> \<not> is_word (hd r)"
    using lr(3) space_not_word by (cases r) (auto simp: list_all_iff)
  show ?thesis using course_token_embed [OF lr(1) a b tok] .
qed

lemma course_token_strip: "course_token_in s ref \<Longrightarrow> course_token_in (strip s) ref"
proof -
  assume "course_token_in s ref"
  then obtain pre L W D U post where
    d: "s = pre @ L @ W @ D @ U @ post" "ref = L @ '' '' @ D @ U" "course_shape L W D U"
      "pre = [] \<or> \<not> is_word (last pre)" "post = [] \<or> \<not> is_word (hd post)"
    by (rule course_token_inE)
  have s: "s = pre @ (L @ W @ D @ U) @ post" using d(1) by simp
  note e = shape_ends [OF d(3)]
  obtain p' q' where k: "strip s = p' @ (L @ W @ D @ U) @ q'"
      "p' = [] \<or> (pre \<noteq> [] \<and> last p' = last pre)" "q' = [] \<or> (post \<noteq> [] \<and> hd q' = hd post)"
    using strip_keeps [OF s e(1) upper_not_space [OF e(2)] e(4)] by blast
  show ?thesis unfolding d(2) using course_token_restrict [OF s d(3) d(4) d(5) k] .
qed

lemma course_token_split_back:
  assumes "piece \<in> set (split_runs sep s)" and "\<not> is_word sep" and "course_token_in piece ref"
  shows "course_token_in s ref"
proof -
  obtain a b where ab: "s = a @ piece @ b" "a = [] \<or> last a = sep" "b = [] \<or> hd b = sep"
    using split_runs_piece [OF assms(1)] by blast
  have a: "a = [] \<or> \<not> is_word (last a)" using ab(2) assms(2) by auto
  have b: "b = [] \<or> \<not> is_word (hd b)" using ab(3) assms(2) by auto
  show ?thesis using course_token_embed [OF ab(1) a b assms(3)] .
qed

lemma course_token_split:
  assumes tok: "course_token_in s ref"
    and sep: "\<not> is_upper sep" "\<not> is_space sep" "\<not> is_digit sep"
  shows "\<exists>piece \<in> set (split_runs sep s). course_token_in piece ref"
proof -
  from tok obtain pre L W D U post where
    d: "s = pre @ L @ W @ D @ U @ post" "ref = L @ '' '' @ D @ U" "course_shape L W D U"
      "pre = [] \<or> \<not> is_word (last pre)" "post = [] \<or> \<not> is_word (hd post)"
    by (rule course_token_inE)
  have s: "s = pre @ (L @ W @ D @ U) @ post" using d(1) by simp
  note e = shape_ends [OF d(3)]
  have "sep \<notin> set (L @ W @ D @ U)"
    using d(3) sep unfolding course_shape_def by (auto simp: list_all_iff)
  from split_runs_covers [OF s e(1) this]
  obtain piece a b where k: "piece \<in> set (split_runs sep s)" "piece = a @ (L @ W @ D @ U) @ b"
      "a = [] \<or> (pre \<noteq> [] \<and> last a = last pre)" "b = [] \<or> (post \<noteq> [] \<and> hd b = hd post)"
    by blast
  have "course_token_in piece ref"
    unfolding d(2) using course_token_restrict [OF s d(3) d(4) d(5) k(2) k(3) k(4)] .
  then show ?thesis using k(1) by blast
qed

lemma sub_spaces_last_word:
  assumes "sub_spaces p = y @ [w]" and "is_word w"
  shows "p \<noteq> [] \<and> last p = w"
proof -
  obtain p1 p2 where p: "p = p1 @ p2" "sub_spaces p1 = y" "sub_spaces p2 = [w]"
    using sub_spaces_split [OF assms(1)] by blast
  have "\<not> is_space w" using assms(2) space_not_word by blast
  then have "list_all (\<lambda>c. \<not> is_space c) (sub_spaces p2)" using p(3) by simp
  then have "p2 = [w]" using sub_spaces_nonspace_back [of p2] p(3) by simp
  then show ?thesis using p(1) by simp
qed

lemma sub_spaces_hd_word:
  assumes "sub_spaces p = w # y" and "is_word w"
  shows "p \<noteq> [] \<and> hd p = w"
proof -
  have "sub_spaces p = [w] @ y" using assms(1) by simp
  then obtain p1 p2 where p: "p = p1 @ p2" "sub_spaces p1 = [w]" "sub_spaces p2 = y"
    using sub_spaces_split by blast
  have "\<not> is_space w" using assms(2) space_not_word by blast
  then have "list_all (\<lambda>c. \<not> is_space c) (sub_spaces p1)" using p(2) by simp
  then have "p1 = [w]" using sub_spaces_nonspace_back [of p1] p(2) by simp
  then show ?thesis using p(1) by simp
qed

lemma sub_spaces_frame_last:
  assumes "p = [] \<or> \<not> is_word (last p)"
  shows "sub_spaces p = [] \<or> \<not> is_word (last (sub_spaces p))"
proof (cases "sub_spaces p = []")
  case False
  then obtain y w where yw: "sub_spaces p = y @ [w]" by (metis rev_exhaust)
  have "\<not> is_word w"
  proof
    assume "is_word w"
    then have "p \<noteq> [] \<and> last p = w" using sub_spaces_last_word [OF yw] by blast
    then show False using assms \<open>is_word w\<close> by auto
  qed
  then show ?thesis using yw by simp
qed simp

lemma sub_spaces_frame_hd:
  assumes "p = [] \<or> \<not> is_word (hd p)"
  shows "sub_spaces p = [] \<or> \<not> is_word (hd (sub_spaces p))"
proof (cases "sub_spaces p")
  case (Cons w y)
  have "\<not> is_word w"
  proof
    assume "is_word w"
    then have "p \<noteq> [] \<and> hd p = w" using sub_spaces_hd_word [OF Cons] by blast
    then show False using assms \<open>is_word w\<close> by auto
  qed
  then show ?thesis using Cons by simp
qed simp

lemma sub_spaces_frame_last_back:
  assumes "sub_spaces p = [] \<or> \<not> is_word (last (sub_spaces p))"
  shows "p = [] \<or> \<not> is_word (last p)"
proof (cases "p = []")
  case False
  then obtain y w where yw: "p = y @ [w]" by (metis rev_exhaust)
  have "\<not> is_word w"
  proof
    assume w: "is_word w"
    then have "\<not> is_space w" using space_not_word by blast
    then have "sub_spaces p = sub_spaces y @ [w]"
      unfolding yw using sub_spaces_append_nonspace [of w y "[]"] by simp
    then show False using assms w by auto
  qed
  then show ?thesis using yw by simp
qed simp

lemma sub_spaces_frame_hd_back:
  assumes "sub_spaces p = [] \<or> \<not> is_word (hd (sub_spaces p))"
  shows "p = [] \<or> \<not> is_word (hd p)"
proof (cases p)
  case (Cons w y)
  have "\<not> is_word w"
  proof
    assume w: "is_word w"
    then have "\<not> is_space w" using space_not_word by blast
    then have "sub_spaces p = w # sub_spaces y" unfolding Cons by simp
    then show False using assms w by auto
  qed
  then show ?thesis using Cons by simp
qed simp

lemma shape_nonspace:
  assumes "course_shape L W D U"
  shows "list_all (\<lambda>c. \<not> is_space c) L" "list_all (\<lambda>c. \<not> is_space c) D"
    "list_all (\<lambda>c. \<not> is_space c) U" "list_all (\<lambda>c. \<not> is_space c) (D @ U)"
  using assms upper_not_space digit_not_space unfolding course_shape_def
  by (auto simp: list_all_iff)

lemma course_token_sub_spaces:
  assumes "course_token_in s ref"
  shows "course_token_in (sub_spaces s) ref"
proof -
  from assms obtain pre L W D U post where
    d: "s = pre @ L @ W @ D @ U @ post" "ref = L @ '' '' @ D @ U" "course_shape L W D U"
      "pre = [] \<or> \<not> is_word (last pre)" "post = [] \<or> \<not> is_word (hd post)"
    by (rule course_token_inE)
  note ns = shape_nonspace [OF d(3)]
  from d(3) obtain l L' where L: "L = l # L'" unfolding course_shape_def by (cases L) auto
  from d(3) obtain e D' where D: "D = e # D'" unfolding course_shape_def by (cases D) auto
  have l: "\<not> is_space l" and L': "list_all (\<lambda>c. \<not> is_space c) L'" using ns(1) L by auto
  have e: "\<not> is_space e" and D': "list_all (\<lambda>c. \<not> is_space c) (D' @ U)" using ns(4) D by auto
  have "sub_spaces s = sub_spaces pre @ l # sub_spaces (L' @ W @ e # D' @ U @ post)"
    unfolding d(1) L D using sub_spaces_append_nonspace [OF l, of pre] by simp
  also have "sub_spaces (L' @ W @ e # D' @ U @ post)
      = sub_spaces (L' @ W) @ e # sub_spaces ((D' @ U) @ post)"
    using sub_spaces_append_nonspace [OF e, of "L' @ W" "D' @ U @ post"] by simp
  also have "sub_spaces (L' @ W) = L' @ sub_spaces W"
    using sub_spaces_nonspace_prefix [OF L'] .
  also have "sub_spaces ((D' @ U) @ post) = (D' @ U) @ sub_spaces post"
    using sub_spaces_nonspace_prefix [OF D'] .
  finally have 1: "sub_spaces s = sub_spaces pre @ L @ sub_spaces W @ D @ U @ sub_spaces post"
    unfolding L D by simp
  have W: "list_all is_space W" using d(3) unfolding course_shape_def by simp
  have "list_all is_space (sub_spaces W)"
    unfolding sub_spaces_all_space [OF W] using blank_space by simp
  then have 2: "course_shape L (sub_spaces W) D U" using d(3) unfolding course_shape_def by simp
  show ?thesis
    unfolding d(2)
    using course_token_inI [OF 1 2 sub_spaces_frame_last [OF d(4)] sub_spaces_frame_hd [OF d(5)]] .
qed

lemma course_token_sub_spaces_back:
  assumes "course_token_in (sub_spaces s) ref"
  shows "course_token_in s ref"
proof -
  from assms obtain pre L W D U post where
    d: "sub_spaces s = pre @ L @ W @ D @ U @ post" "ref = L @ '' '' @ D @ U" "course_shape L W D U"
      "pre = [] \<or> \<not> is_word (last pre)" "post = [] \<or> \<not> is_word (hd post)"
    by (rule course_token_inE)
  note ns = shape_nonspace [OF d(3)]
  obtain s0 r0 where 0: "s = s0 @ r0" "sub_spaces s0 = pre" "sub_spaces r0 = L @ W @ D @ U @ post"
    using sub_spaces_split [OF d(1)] by blast
  obtain s1 r1 where 1: "r0 = s1 @ r1" "sub_spaces s1 = L" "sub_spaces r1 = W @ D @ U @ post"
    using sub_spaces_split [OF 0(3)] by blast
  obtain s2 r2 where 2: "r1 = s2 @ r2" "sub_spaces s2 = W" "sub_spaces r2 = D @ U @ post"
    using sub_spaces_split [OF 1(3)] by blast
  obtain s3 r3 where 3: "r2 = s3 @ r3" "sub_spaces s3 = D" "sub_spaces r3 = U @ post"
    using sub_spaces_split [OF 2(3)] by blast
  obtain s4 s5 where 4: "r3 = s4 @ s5" "sub_spaces s4 = U" "sub_spaces s5 = post"
    using sub_spaces_split [OF 3(3)] by blast
  have L: "s1 = L" using sub_spaces_nonspace_back [of s1] ns(1) 1(2) by simp
  have D: "s3 = D" using sub_spaces_nonspace_back [of s3] ns(2) 3(2) by simp
  have U: "s4 = U" using sub_spaces_nonspace_back [of s4] ns(3) 4(2) by simp
  have "list_all is_space (sub_spaces s2)" using d(3) 2(2) unfolding course_shape_def by simp
  then have W: "list_all is_space s2" by (rule sub_spaces_space_back)
  have sh: "course_shape L s2 D U" using d(3) W unfolding course_shape_def by simp
  have s: "s = s0 @ L @ s2 @ D @ U @ s5"
    using 0(1) 1(1) 2(1) 3(1) 4(1) L D U by simp
  have a: "s0 = [] \<or> \<not> is_word (last s0)"
    using sub_spaces_frame_last_back [of s0] d(4) 0(2) by simp
  have b: "s5 = [] \<or> \<not> is_word (hd s5)"
    using sub_spaces_frame_hd_back [of s5] d(5) 4(3) by simp
  show ?thesis unfolding d(2) using course_token_inI [OF s sh a b] .
qed

lemma course_token_normalize_iff:
  "course_token_in (normalize_space s) ref \<longleftrightarrow> course_token_in s ref"
  unfolding normalize_space_def
  using course_token_strip course_token_strip_back course_token_sub_spaces course_token_sub_spaces_back
  by blast

section \<open>Facts about repetitions, the course pattern and finditer\<close>

lemma rep_SomeD:
  assumes "rep cls lo hi t i k = Some r"
  shows "\<exists>n. lo \<le> n \<and> n \<le> run cls t i \<and> (\<forall>h. hi = Some h \<longrightarrow> n \<le> h) \<and> k (i + n) = Some r"
proof -
  from first_some_SomeD [OF assms [unfolded rep_def]]
  obtain n where n: "n \<in> set (rev [lo..<Suc (case hi of None \<Rightarrow> run cls t i | Some h \<Rightarrow> min h (run cls t i))])"
    "k (i + n) = Some r" by blast
  from n(1) have "lo \<le> n \<and> n \<le> run cls t i \<and> (\<forall>h. hi = Some h \<longrightarrow> n \<le> h)"
    by (cases hi) auto
  then show ?thesis using n(2) by blast
qed

lemma rep_not_None:
  assumes "lo \<le> n" "n \<le> run cls t i" "\<forall>h. hi = Some h \<longrightarrow> n \<le> h" "k (i + n) \<noteq> None"
  shows "rep cls lo hi t i k \<noteq> None"
proof
  assume "rep cls lo hi t i k = None"
  then have a: "\<forall>x \<in> set (rev [lo..<Suc (case hi of None \<Rightarrow> run cls t i | Some h \<Rightarrow> min h (run cls t i))]). k (i + x) = None"
    unfolding rep_def first_some_None_iff .
  have "n \<in> set (rev [lo..<Suc (case hi of None \<Rightarrow> run cls t i | Some h \<Rightarrow> min h (run cls t i))])"
    using assms(1,2,3) by (cases hi) auto
  with a have "k (i + n) = None" by (rule bspec)
  then show False using assms(4) by simp
qed

lemma take_takeWhile: "n \<le> length (takeWhile P xs) \<Longrightarrow> take n xs = take n (takeWhile P xs)"
proof -
  assume n: "n \<le> length (takeWhile P xs)"
  have "take n xs = take n (takeWhile P xs @ dropWhile P xs)" by simp
  also have "\<dots> = take n (takeWhile P xs)" using n by (simp only: take_append) simp
  finally show ?thesis .
qed

lemma run_le:
  assumes "n \<le> run cls t i" and "i \<le> length t"
  shows "i + n \<le> length t" "list_all cls (slice t i (i + n))" "length (slice t i (i + n)) = n"
proof -
  have n: "n \<le> length (takeWhile cls (drop i t))" using assms by (simp add: run_def)
  also have "\<dots> \<le> length (drop i t)" by (rule length_takeWhile_le)
  finally have l: "n \<le> length t - i" by simp
  show "i + n \<le> length t" using l assms(2) by simp
  have "slice t i (i + n) = take n (takeWhile cls (drop i t))"
    unfolding slice_def using take_takeWhile [OF n] by simp
  then show "list_all cls (slice t i (i + n))"
    by (simp add: list_all_iff) (meson in_set_takeD set_takeWhileD)
  show "length (slice t i (i + n)) = n" unfolding slice_def using l by simp
qed

lemma run_ge:
  assumes "t = pre @ x @ rest" and "list_all cls x"
  shows "length x \<le> run cls t (length pre)"
proof -
  have "takeWhile cls (drop (length pre) t) = x @ takeWhile cls rest"
    unfolding assms(1) using assms(2) by (simp add: takeWhile_append list_all_iff)
  then show ?thesis by (simp add: run_def)
qed

lemma bnd_Some_iff: "bnd t i k = Some r \<longleftrightarrow> word_boundary t i \<and> k i = Some r"
  by (simp add: bnd_def)

lemma COURSE_RE_sound:
  assumes m: "COURSE_RE t i = Some (c, e)" and i: "i \<le> length t"
  shows "course_token_at t i c"
proof -
  define K4 where "K4 = (\<lambda>j k e. bnd t e (\<lambda>_. Some (slice t i j @ '' '' @ slice t k e, e)))"
  define K3 where "K3 = (\<lambda>j k l. rep is_upper 0 (Some 1) t l (K4 j k))"
  define K2 where "K2 = (\<lambda>j k. rep is_digit 2 (Some 3) t k (K3 j k))"
  define K1 where "K1 = (\<lambda>j. rep is_space 0 None t j (K2 j))"
  have "COURSE_RE t i = bnd t i (\<lambda>_. rep is_upper 2 (Some 4) t i K1)"
    unfolding COURSE_RE_def K1_def K2_def K3_def K4_def ..
  with m have wb: "word_boundary t i" and r1: "rep is_upper 2 (Some 4) t i K1 = Some (c, e)"
    by (simp_all add: bnd_Some_iff)
  from rep_SomeD [OF r1] obtain n1 where
    n1: "2 \<le> n1" "n1 \<le> run is_upper t i" "n1 \<le> 4" "K1 (i + n1) = Some (c, e)" by auto
  define j where "j = i + n1"
  note L = run_le [OF n1(2) i, folded j_def]
  from rep_SomeD [OF n1(4) [unfolded K1_def, folded j_def]] obtain n2 where
    n2: "n2 \<le> run is_space t j" "K2 j (j + n2) = Some (c, e)" by auto
  define k where "k = j + n2"
  note W = run_le [OF n2(1) L(1), folded k_def]
  from rep_SomeD [OF n2(2) [unfolded K2_def, folded k_def]] obtain n3 where
    n3: "2 \<le> n3" "n3 \<le> run is_digit t k" "n3 \<le> 3" "K3 j k (k + n3) = Some (c, e)" by auto
  define l where "l = k + n3"
  note D = run_le [OF n3(2) W(1), folded l_def]
  from rep_SomeD [OF n3(4) [unfolded K3_def, folded l_def]] obtain n4 where
    n4: "n4 \<le> run is_upper t l" "n4 \<le> 1" "K4 j k (l + n4) = Some (c, e)" by auto
  define e' where "e' = l + n4"
  note U = run_le [OF n4(1) D(1), folded e'_def]
  from n4(3) have wbe: "word_boundary t e'" and c: "c = slice t i j @ '' '' @ slice t k e'"
    and e: "e = e'"
    unfolding K4_def e'_def [symmetric] by (auto simp: bnd_Some_iff)
  define Ls where "Ls = slice t i j"
  define Ws where "Ws = slice t j k"
  define Ds where "Ds = slice t k l"
  define Us where "Us = slice t l e'"
  have le: "i \<le> j" "j \<le> k" "k \<le> l" "l \<le> e'" "e' \<le> length t"
    using U(1) by (simp_all add: j_def k_def l_def e'_def)
  have sl: "slice t i e' = Ls @ Ws @ Ds @ Us"
  proof -
    have "slice t i e' = slice t i j @ slice t j e'" using le by (intro slice_append) simp_all
    also have "slice t j e' = slice t j k @ slice t k e'" using le by (intro slice_append) simp_all
    also have "slice t k e' = slice t k l @ slice t l e'" using le by (intro slice_append) simp_all
    finally show ?thesis by (simp add: Ls_def Ws_def Ds_def Us_def)
  qed
  have ke: "slice t k e' = Ds @ Us"
    unfolding Ds_def Us_def using le by (intro slice_append) simp_all
  have t: "t = take i t @ Ls @ Ws @ Ds @ Us @ drop e' t"
    using slice_parts [of i e' t] le sl by simp
  have sh: "course_shape Ls Ws Ds Us"
    unfolding course_shape_def Ls_def Ws_def Ds_def Us_def
    using L(2,3) W(2) D(2,3) U(2,3) n1(1,3) n3(1,3) n4(2) by simp
  have lp: "length (take i t) = i" using i by simp
  note en = shape_ends [OF sh]
  have Lne: "Ls \<noteq> []" using sh unfolding course_shape_def by auto
  have pre: "take i t = [] \<or> \<not> is_word (last (take i t))"
  proof -
    have "word_boundary (take i t @ (Ls @ Ws @ Ds @ Us @ drop e' t)) (length (take i t))"
      using wb t lp by simp
    moreover have "hd (Ls @ Ws @ Ds @ Us @ drop e' t) = hd (Ls @ Ws @ Ds @ Us)"
      using en(1) by (metis append.assoc hd_append2)
    then have "is_word (hd (Ls @ Ws @ Ds @ Us @ drop e' t))"
      using en(2) upper_word by simp
    moreover have "Ls @ Ws @ Ds @ Us @ drop e' t \<noteq> []" using Lne by simp
    ultimately show ?thesis unfolding word_boundary_zip by blast
  qed
  have post: "drop e' t = [] \<or> \<not> is_word (hd (drop e' t))"
  proof -
    have len: "length (take i t @ Ls @ Ws @ Ds @ Us) = e'"
      using lp L(3) W(3) D(3) U(3) by (simp add: Ls_def Ws_def Ds_def Us_def j_def k_def l_def e'_def)
    have "t = (take i t @ Ls @ Ws @ Ds @ Us) @ drop e' t" using t by simp
    then have "word_boundary ((take i t @ Ls @ Ws @ Ds @ Us) @ drop e' t)
        (length (take i t @ Ls @ Ws @ Ds @ Us))"
      using wbe len by simp
    moreover have "last (take i t @ Ls @ Ws @ Ds @ Us) = last (Ls @ Ws @ Ds @ Us)"
      using en(1) by (metis last_appendR)
    then have "is_word (last (take i t @ Ls @ Ws @ Ds @ Us))" using en(3) by simp
    moreover have "take i t @ Ls @ Ws @ Ds @ Us \<noteq> []" using Lne by simp
    ultimately show ?thesis unfolding word_boundary_zip by blast
  qed
  have "c = Ls @ '' '' @ Ds @ Us" using c ke by (simp add: Ls_def)
  then show ?thesis using course_token_at_zipI [OF t sh pre post] lp by simp
qed

lemma COURSE_RE_complete:
  assumes "course_token_at t i c"
  shows "COURSE_RE t i \<noteq> None"
proof -
  from assms obtain pre L W D U post where
    d: "t = pre @ L @ W @ D @ U @ post" "length pre = i" "course_shape L W D U"
      "pre = [] \<or> \<not> is_word (last pre)" "post = [] \<or> \<not> is_word (hd post)"
    by (rule course_token_at_zipE)
  note en = shape_ends [OF d(3)]
  from d(3) have sh: "2 \<le> length L" "length L \<le> 4" "list_all is_upper L" "list_all is_space W"
     "2 \<le> length D" "length D \<le> 3" "list_all is_digit D" "length U \<le> 1" "list_all is_upper U"
    unfolding course_shape_def by simp_all
  have Lne: "L \<noteq> []" using sh(1) by auto
  define j where "j = i + length L"
  define k where "k = j + length W"
  define l where "l = k + length D"
  define e where "e = l + length U"
  have wb: "word_boundary t i"
  proof -
    have "hd (L @ W @ D @ U @ post) = hd (L @ W @ D @ U)"
      using en(1) by (metis append.assoc hd_append2)
    then have "is_word (hd (L @ W @ D @ U @ post))" using en(2) upper_word by simp
    moreover have "L @ W @ D @ U @ post \<noteq> []" using Lne by simp
    ultimately have "word_boundary (pre @ (L @ W @ D @ U @ post)) (length pre)"
      unfolding word_boundary_zip using d(4) by blast
    then show ?thesis using d(1,2) by simp
  qed
  have wbe: "word_boundary t e"
  proof -
    have "last (pre @ L @ W @ D @ U) = last (L @ W @ D @ U)"
      using en(1) by (metis last_appendR)
    then have "is_word (last (pre @ L @ W @ D @ U))" using en(3) by simp
    moreover have "pre @ L @ W @ D @ U \<noteq> []" using Lne by simp
    ultimately have "word_boundary ((pre @ L @ W @ D @ U) @ post) (length (pre @ L @ W @ D @ U))"
      unfolding word_boundary_zip using d(5) by blast
    moreover have "length (pre @ L @ W @ D @ U) = e"
      using d(2) by (simp add: j_def k_def l_def e_def)
    ultimately show ?thesis using d(1) by simp
  qed
  have r1: "length L \<le> run is_upper t i"
    using run_ge [of t pre L "W @ D @ U @ post" is_upper] d(1,2) sh(3) by simp
  have r2: "length W \<le> run is_space t j"
    using run_ge [of t "pre @ L" W "D @ U @ post" is_space] d(1,2) sh(4) by (simp add: j_def)
  have r3: "length D \<le> run is_digit t k"
    using run_ge [of t "pre @ L @ W" D "U @ post" is_digit] d(1,2) sh(7) by (simp add: j_def k_def add.assoc)
  have r4: "length U \<le> run is_upper t l"
    using run_ge [of t "pre @ L @ W @ D" U post is_upper] d(1,2) sh(9)
    by (simp add: j_def k_def l_def add.assoc)
  define K4 where "K4 = (\<lambda>j k e. bnd t e (\<lambda>_. Some (slice t i j @ '' '' @ slice t k e, e)))"
  define K3 where "K3 = (\<lambda>j k l. rep is_upper 0 (Some 1) t l (K4 j k))"
  define K2 where "K2 = (\<lambda>j k. rep is_digit 2 (Some 3) t k (K3 j k))"
  define K1 where "K1 = (\<lambda>j. rep is_space 0 None t j (K2 j))"
  have c: "COURSE_RE t i = bnd t i (\<lambda>_. rep is_upper 2 (Some 4) t i K1)"
    unfolding COURSE_RE_def K1_def K2_def K3_def K4_def ..
  have 4: "K4 j k e \<noteq> None" unfolding K4_def bnd_def using wbe by simp
  have 3: "K3 j k l \<noteq> None"
    unfolding K3_def using 4 r4 sh(8) by (intro rep_not_None [of _ "length U"]) (simp_all add: e_def)
  have 2: "K2 j k \<noteq> None"
    unfolding K2_def using 3 r3 sh(5,6) by (intro rep_not_None [of _ "length D"]) (simp_all add: l_def)
  have 1: "K1 j \<noteq> None"
    unfolding K1_def using 2 r2 by (intro rep_not_None [of _ "length W"]) (simp_all add: k_def)
  have "rep is_upper 2 (Some 4) t i K1 \<noteq> None"
    using 1 r1 sh(1,2) by (intro rep_not_None [of _ "length L"]) (simp_all add: j_def)
  then show ?thesis unfolding c bnd_def using wb by simp
qed

lemma finditer_from_sound:
  "(s, g, e) \<in> set (finditer_from m t i) \<Longrightarrow> m t s = Some (g, e) \<and> i \<le> s \<and> s \<le> length t"
proof (induction m t i rule: finditer_from.induct)
  case (1 m t i)
  show ?case
  proof (cases "length t < i")
    case True
    then show ?thesis using "1.prems" by (subst (asm) finditer_from.simps) simp
  next
    case False
    show ?thesis
    proof (cases "m t i")
      case None
      then have "finditer_from m t i = finditer_from m t (Suc i)"
        using False by (subst finditer_from.simps) simp
      then have "(s, g, e) \<in> set (finditer_from m t (Suc i))" using "1.prems" by simp
      from "1.IH"(1) [OF False None this] show ?thesis by simp
    next
      case (Some x)
      obtain g' e' where x: "x = (g', e')" by (cases x)
      have "finditer_from m t i = (i, g', e') # finditer_from m t (if i < e' then e' else Suc i)"
        using False Some x by (subst finditer_from.simps) simp
      then have "(s, g, e) = (i, g', e')
          \<or> (s, g, e) \<in> set (finditer_from m t (if i < e' then e' else Suc i))"
        using "1.prems" by simp
      then show ?thesis
      proof
        assume "(s, g, e) = (i, g', e')"
        then show ?thesis using Some x False by simp
      next
        assume "(s, g, e) \<in> set (finditer_from m t (if i < e' then e' else Suc i))"
        from "1.IH"(2) [OF False Some x [symmetric] this] show ?thesis
          by (auto split: if_splits)
      qed
    qed
  qed
qed

lemma finditer_from_nonempty:
  "i \<le> j \<Longrightarrow> j \<le> length t \<Longrightarrow> m t j \<noteq> None \<Longrightarrow> finditer_from m t i \<noteq> []"
proof (induction m t i rule: finditer_from.induct)
  case (1 m t i)
  have nl: "\<not> length t < i" using "1.prems" by simp
  show ?case
  proof (cases "m t i")
    case None
    then have "i \<noteq> j" using "1.prems" by auto
    then have "Suc i \<le> j" using "1.prems" by simp
    from "1.IH"(1) [OF nl None this "1.prems"(2,3)]
    show ?thesis using nl None by (subst finditer_from.simps) simp
  next
    case (Some x)
    then show ?thesis using nl by (subst finditer_from.simps) (simp split: prod.splits)
  qed
qed

lemma find_course_spans_sound:
  "(c, s, e) \<in> set (find_course_spans t) \<Longrightarrow> course_token_at t s c"
proof -
  assume "(c, s, e) \<in> set (find_course_spans t)"
  then have "(s, c, e) \<in> set (finditer_from COURSE_RE t 0)"
    unfolding find_course_spans_def finditer_def by auto
  from finditer_from_sound [OF this] show ?thesis using COURSE_RE_sound by blast
qed

lemma find_course_spans_nonempty_iff:
  "find_course_spans t \<noteq> [] \<longleftrightarrow> (\<exists>c. course_token_in t c)"
proof
  assume "find_course_spans t \<noteq> []"
  then obtain c s e where "(c, s, e) \<in> set (find_course_spans t)"
    by (cases "find_course_spans t") auto
  then show "\<exists>c. course_token_in t c"
    using find_course_spans_sound unfolding course_token_in_iff by blast
next
  assume "\<exists>c. course_token_in t c"
  then obtain c i where a: "course_token_at t i c" unfolding course_token_in_iff by blast
  then have "i \<le> length t" by (rule course_token_at_le)
  then have "finditer_from COURSE_RE t 0 \<noteq> []"
    using finditer_from_nonempty [of 0 i t COURSE_RE] COURSE_RE_complete [OF a] by simp
  then show "find_course_spans t \<noteq> []"
    unfolding find_course_spans_def finditer_def by simp
qed

lemma analyze_none_gate:
  assumes "strip t = [] \<or> is_none_text t"
  shows "analyze [\<lparr>index = i, name = n, prerequisites = Some t\<rparr>]
         = \<lparr>none = [\<lparr>index = i, name = n, prerequisites = Some t\<rparr>], course_only = [], remaining = []\<rparr>"
  using assms by (auto simp: analyze_def analyze_step_def)

lemma build_prerequisites_empty:
  assumes "strip t = t'" and "parse_prereq_text t' = \<lparr>hard = EMPTY, coreq_ok = EMPTY\<rparr>"
    and "detect_flags t' = []"
  shows "hard (build_prerequisites \<lparr>index = i, name = n, prerequisites = Some t\<rparr>) = EMPTY
     \<and> coreq_ok (build_prerequisites \<lparr>index = i, name = n, prerequisites = Some t\<rparr>) = EMPTY
     \<and> flags (build_prerequisites \<lparr>index = i, name = n, prerequisites = Some t\<rparr>) = []"
  using assms by (simp add: build_prerequisites_def Let_def)

lemma none_input_empty:
  assumes g: "strip t = [] \<or> is_none_text t"
    and s: "strip t = t"
    and p: "parse_prereq_text t = \<lparr>hard = EMPTY, coreq_ok = EMPTY\<rparr>"
    and f: "detect_flags t = []"
  shows "(strip t = [] \<or> is_none_text t)
     \<and> analyze [\<lparr>index = i, name = n, prerequisites = Some t\<rparr>]
         = \<lparr>none = [\<lparr>index = i, name = n, prerequisites = Some t\<rparr>], course_only = [], remaining = []\<rparr>
     \<and> parse_prereq_text t = \<lparr>hard = EMPTY, coreq_ok = EMPTY\<rparr>
     \<and> hard (build_prerequisites \<lparr>index = i, name = n, prerequisites = Some t\<rparr>) = EMPTY
     \<and> coreq_ok (build_prerequisites \<lparr>index = i, name = n, prerequisites = Some t\<rparr>) = EMPTY
     \<and> flags (build_prerequisites \<lparr>index = i, name = n, prerequisites = Some t\<rparr>) = []"
proof -
  have p': "parse_prereq_text (strip t) = \<lparr>hard = EMPTY, coreq_ok = EMPTY\<rparr>"
    and f': "detect_flags (strip t) = []"
    using s p f by simp_all
  from g p analyze_none_gate [OF g, of i n] build_prerequisites_empty [OF refl p' f', of i n]
  show ?thesis by (intro conjI) (elim conjE, assumption)+
qed

section \<open>The claims\<close>

text \<open>
  C9. Each of the four texts \<open>""\<close>, \<open>"None."\<close>, \<open>"No prerequisites."\<close> and
  \<open>"Prerequisites: none"\<close> is none-type for the gate of \<open>analyze\<close> (its strip is empty
  or \<open>is_none_text\<close> holds), so \<open>analyze\<close> puts a record with that text into the
  bucket \<open>none\<close> and into no other; \<open>parse_prereq_text\<close> gives \<open>hard = EMPTY\<close> and
  \<open>coreq_ok = EMPTY\<close> on it, and the object \<open>main\<close> of build\_final\_parsed.py builds
  for the record has these two trees and the empty flag list.
\<close>

theorem none_inputs_parse_empty:
  "\<forall>t \<in> set ['''', ''None.'', ''No prerequisites.'', ''Prerequisites: none''].
     (strip t = [] \<or> is_none_text t)
     \<and> analyze [\<lparr>index = i, name = n, prerequisites = Some t\<rparr>]
         = \<lparr>none = [\<lparr>index = i, name = n, prerequisites = Some t\<rparr>], course_only = [], remaining = []\<rparr>
     \<and> parse_prereq_text t = \<lparr>hard = EMPTY, coreq_ok = EMPTY\<rparr>
     \<and> hard (build_prerequisites \<lparr>index = i, name = n, prerequisites = Some t\<rparr>) = EMPTY
     \<and> coreq_ok (build_prerequisites \<lparr>index = i, name = n, prerequisites = Some t\<rparr>) = EMPTY
     \<and> flags (build_prerequisites \<lparr>index = i, name = n, prerequisites = Some t\<rparr>) = []"
proof -
  have s0: "strip '''' = ''''" by code_simp
  have s1: "strip ''None.'' = ''None.''" by code_simp
  have s2: "strip ''No prerequisites.'' = ''No prerequisites.''" by code_simp
  have s3: "strip ''Prerequisites: none'' = ''Prerequisites: none''" by code_simp
  have n1: "is_none_text ''None.''" by code_simp
  have n2: "is_none_text ''No prerequisites.''" by code_simp
  have n3: "is_none_text ''Prerequisites: none''" by code_simp
  have p0: "parse_prereq_text '''' = \<lparr>hard = EMPTY, coreq_ok = EMPTY\<rparr>" by code_simp
  have p1: "parse_prereq_text ''None.'' = \<lparr>hard = EMPTY, coreq_ok = EMPTY\<rparr>" by code_simp
  have p2: "parse_prereq_text ''No prerequisites.'' = \<lparr>hard = EMPTY, coreq_ok = EMPTY\<rparr>" by code_simp
  have p3: "parse_prereq_text ''Prerequisites: none'' = \<lparr>hard = EMPTY, coreq_ok = EMPTY\<rparr>" by code_simp
  have f0: "detect_flags '''' = []" by code_simp
  have f1: "detect_flags ''None.'' = []" by code_simp
  have f2: "detect_flags ''No prerequisites.'' = []" by code_simp
  have f3: "detect_flags ''Prerequisites: none'' = []" by code_simp
  note a0 = none_input_empty [OF disjI1 [OF s0] s0 p0 f0, of i n]
  note a1 = none_input_empty [OF disjI2 [OF n1] s1 p1 f1, of i n]
  note a2 = none_input_empty [OF disjI2 [OF n2] s2 p2 f2, of i n]
  note a3 = none_input_empty [OF disjI2 [OF n3] s3 p3 f3, of i n]
  show ?thesis
  proof (rule ballI)
    fix t :: string
    assume "t \<in> set [[], ''None.'', ''No prerequisites.'', ''Prerequisites: none'']"
    then have "t = [] \<or> t = ''None.'' \<or> t = ''No prerequisites.'' \<or> t = ''Prerequisites: none''"
      by (simp only: list.set insert_iff empty_iff simp_thms)
    then show "(strip t = [] \<or> is_none_text t)
     \<and> analyze [\<lparr>index = i, name = n, prerequisites = Some t\<rparr>]
         = \<lparr>none = [\<lparr>index = i, name = n, prerequisites = Some t\<rparr>], course_only = [], remaining = []\<rparr>
     \<and> parse_prereq_text t = \<lparr>hard = EMPTY, coreq_ok = EMPTY\<rparr>
     \<and> hard (build_prerequisites \<lparr>index = i, name = n, prerequisites = Some t\<rparr>) = EMPTY
     \<and> coreq_ok (build_prerequisites \<lparr>index = i, name = n, prerequisites = Some t\<rparr>) = EMPTY
     \<and> flags (build_prerequisites \<lparr>index = i, name = n, prerequisites = Some t\<rparr>) = []"
    proof (elim disjE)
      assume e: "t = []"
      show ?thesis unfolding e by (rule a0)
    next
      assume e: "t = ''None.''"
      show ?thesis unfolding e by (rule a1)
    next
      assume e: "t = ''No prerequisites.''"
      show ?thesis unfolding e by (rule a2)
    next
      assume e: "t = ''Prerequisites: none''"
      show ?thesis unfolding e by (rule a3)
    qed
  qed
qed

theorem none_inputs_parse_empty_witness:
  "analyze [\<lparr>index = Some ''CS 100'', name = None, prerequisites = Some ''None.''\<rparr>]
     = \<lparr>none = [\<lparr>index = Some ''CS 100'', name = None, prerequisites = Some ''None.''\<rparr>],
        course_only = [], remaining = []\<rparr>
   \<and> flags (build_prerequisites \<lparr>index = Some ''CS 100'', name = None, prerequisites = Some ''None.''\<rparr>) = []"
proof -
  have m: "''None.'' \<in> set ['''', ''None.'', ''No prerequisites.'', ''Prerequisites: none'']"
    by (simp only: list.set insert_iff empty_iff simp_thms)
  from bspec [OF none_inputs_parse_empty [of "Some ''CS 100''" None] m]
  show ?thesis by (intro conjI) (elim conjE, assumption)+
qed

text \<open>
  C8. The trees of the parser on two clauses: \<open>"one of CS 225"\<close> gives an \<open>OR\<close>
  node with one item (line 44 wraps the courses after the phrase in an \<open>OR\<close> whatever
  their number, and line 45 unwraps only the \<open>AND\<close> around it), as a clause and as
  the \<open>hard\<close> tree of the text; \<open>"CS 225 and CS 233 or CS 241"\<close> gives an \<open>OR\<close> with
  one item around the \<open>OR\<close> of its only comma segment (lines 101 to 106).
\<close>

theorem singleton_or_survives:
  "parse_clause_into_group ''one of CS 225'' = OR [COURSE ''CS 225'']
   \<and> hard (parse_prereq_text ''one of CS 225'') = OR [COURSE ''CS 225'']
   \<and> parse_clause_into_group ''CS 225 and CS 233 or CS 241''
       = OR [OR [COURSE ''CS 225'', COURSE ''CS 233'', COURSE ''CS 241'']]"
  by code_simp

lemma set_detect_flags:
  "set (detect_flags text) = {nm. \<exists>pat. (pat, nm) \<in> set mapping \<and> list_ex (\<lambda>w. contains w (lower text)) pat}"
  unfolding detect_flags_def Let_def
  by (force simp: search_alternation_iff)

lemma flag_fires_iff:
  assumes "(pat, nm) \<in> set mapping" and "\<forall>pat'. (pat', nm) \<in> set mapping \<longrightarrow> pat' = pat"
  shows "nm \<in> set (detect_flags text) \<longleftrightarrow> list_ex (\<lambda>w. contains w (lower text)) pat"
  unfolding set_detect_flags using assms by blast

text \<open>
  C7, as amended. \<open>detect_flags\<close> returns a list of flag names among the six, sorted
  in the order of strings (by code points) and without duplicates, and a flag is in it exactly when one of the keywords of its
  group occurs in the lower-cased text. The groups are the ones of the claim, but the
  group of \<open>MAJOR_OR_PROGRAM\<close> has a sixth keyword, \<open>enrolled\<close>.
\<close>

theorem detect_flags_keyword_groups:
  "sorted (detect_flags text) \<and> distinct (detect_flags text)
   \<and> set (detect_flags text) \<subseteq> {''CONSENT'', ''STANDING'', ''MAJOR_OR_PROGRAM'', ''GRADE_OR_GPA'',
         ''COREQ_ALLOWED'', ''DEPT_OR_INSTRUCTOR''}
   \<and> (''CONSENT'' \<in> set (detect_flags text) \<longleftrightarrow>
        list_ex (\<lambda>w. contains w (lower text)) [''consent'', ''permission'', ''approval''])
   \<and> (''STANDING'' \<in> set (detect_flags text) \<longleftrightarrow>
        list_ex (\<lambda>w. contains w (lower text))
          [''standing'', ''senior'', ''junior'', ''sophomore'', ''freshman''])
   \<and> (''MAJOR_OR_PROGRAM'' \<in> set (detect_flags text) \<longleftrightarrow>
        list_ex (\<lambda>w. contains w (lower text))
          [''major'', ''minor'', ''program'', ''restricted'', ''enrollment'', ''enrolled''])
   \<and> (''GRADE_OR_GPA'' \<in> set (detect_flags text) \<longleftrightarrow>
        list_ex (\<lambda>w. contains w (lower text)) [''gpa'', ''grade'', ''minimum''])
   \<and> (''COREQ_ALLOWED'' \<in> set (detect_flags text) \<longleftrightarrow>
        list_ex (\<lambda>w. contains w (lower text)) [''concurrent'', ''co-requisite'', ''corequisite''])
   \<and> (''DEPT_OR_INSTRUCTOR'' \<in> set (detect_flags text) \<longleftrightarrow>
        list_ex (\<lambda>w. contains w (lower text)) [''department'', ''instructor''])"
proof -
  have a: "sorted (detect_flags text)" by (simp add: detect_flags_def Let_def)
  have b: "distinct (detect_flags text)" by (simp add: detect_flags_def Let_def)
  have c: "set (detect_flags text) \<subseteq> {''CONSENT'', ''STANDING'', ''MAJOR_OR_PROGRAM'', ''GRADE_OR_GPA'',
         ''COREQ_ALLOWED'', ''DEPT_OR_INSTRUCTOR''}"
    unfolding set_detect_flags mapping_def by auto
  have d1: "''CONSENT'' \<in> set (detect_flags text) \<longleftrightarrow>
        list_ex (\<lambda>w. contains w (lower text)) [''consent'', ''permission'', ''approval'']"
    by (rule flag_fires_iff) (simp_all add: mapping_def)
  have d2: "''STANDING'' \<in> set (detect_flags text) \<longleftrightarrow>
        list_ex (\<lambda>w. contains w (lower text))
          [''standing'', ''senior'', ''junior'', ''sophomore'', ''freshman'']"
    by (rule flag_fires_iff) (simp_all add: mapping_def)
  have d3: "''MAJOR_OR_PROGRAM'' \<in> set (detect_flags text) \<longleftrightarrow>
        list_ex (\<lambda>w. contains w (lower text))
          [''major'', ''minor'', ''program'', ''restricted'', ''enrollment'', ''enrolled'']"
    by (rule flag_fires_iff) (simp_all add: mapping_def)
  have d4: "''GRADE_OR_GPA'' \<in> set (detect_flags text) \<longleftrightarrow>
        list_ex (\<lambda>w. contains w (lower text)) [''gpa'', ''grade'', ''minimum'']"
    by (rule flag_fires_iff) (simp_all add: mapping_def)
  have d5: "''COREQ_ALLOWED'' \<in> set (detect_flags text) \<longleftrightarrow>
        list_ex (\<lambda>w. contains w (lower text)) [''concurrent'', ''co-requisite'', ''corequisite'']"
    by (rule flag_fires_iff) (simp_all add: mapping_def)
  have d6: "''DEPT_OR_INSTRUCTOR'' \<in> set (detect_flags text) \<longleftrightarrow>
        list_ex (\<lambda>w. contains w (lower text)) [''department'', ''instructor'']"
    by (rule flag_fires_iff) (simp_all add: mapping_def)
  from a b c d1 d2 d3 d4 d5 d6 show ?thesis by (intro conjI)
qed

theorem detect_flags_keyword_groups_witness:
  "sorted (detect_flags ''Enrolled in the honors program'')
   \<and> ''MAJOR_OR_PROGRAM'' \<in> set (detect_flags ''Enrolled in the honors program'')"
proof -
  have "list_ex (\<lambda>w. contains w (lower ''Enrolled in the honors program''))
          [''major'', ''minor'', ''program'', ''restricted'', ''enrollment'', ''enrolled'']"
    by code_simp
  with detect_flags_keyword_groups [of "''Enrolled in the honors program''"]
  show ?thesis by (intro conjI) (elim conjE, (assumption | simp only:))+
qed

text \<open>
  C7 as stated fails on the text \<open>"enrolled"\<close>: the flag \<open>MAJOR_OR_PROGRAM\<close> fires,
  and none of the five keywords the claim gives for it occurs in the text.
\<close>

theorem enrolled_fires_major_or_program:
  "''MAJOR_OR_PROGRAM'' \<in> set (detect_flags ''enrolled'')
   \<and> \<not> list_ex (\<lambda>w. contains w (lower ''enrolled''))
          [''major'', ''minor'', ''program'', ''restricted'', ''enrollment'']"
  by code_simp

lemma connector_of_claimed: "connector_of b = connector_claimed (lower b)"
  by (simp add: connector_of_def connector_claimed_def Let_def)

text \<open>
  C3. The connectors of a clause are one per pair of adjacent tokens, each a value of
  the type with the four values \<open>AND\<close>, \<open>OR\<close>, \<open>LIST\<close> and \<open>UNKNOWN\<close>, and the
  connector of the pair \<open>i\<close>, \<open>i + 1\<close> is the classification of the claim applied to
  the lower-cased text from the end of token \<open>i\<close> to the start of token \<open>i + 1\<close>:
  a function of that text alone.
\<close>

theorem connectors_pairwise:
  "length (connectors_of clause_clean courses) = length courses - 1
   \<and> (\<forall>i. Suc i < length courses \<longrightarrow>
         connectors_of clause_clean courses ! i
           = connector_claimed
               (lower (slice clause_clean (snd (snd (courses ! i))) (fst (snd (courses ! Suc i))))))"
proof -
  have "connectors_of clause_clean courses ! i
           = connector_claimed
               (lower (slice clause_clean (snd (snd (courses ! i))) (fst (snd (courses ! Suc i)))))"
    if "Suc i < length courses" for i
  proof -
    have i: "i < length [0..<length courses - 1]" using that by simp
    have "connectors_of clause_clean courses ! i
        = (case (courses ! i, courses ! (i + 1)) of
             ((_, _, end_prev), (_, start_next, _)) \<Rightarrow>
                connector_of (slice clause_clean end_prev start_next))"
      unfolding connectors_of_def using that by (simp only: nth_map [OF i] nth_upt) simp
    then show ?thesis
      by (simp add: connector_of_claimed split: prod.splits)
  qed
  moreover have "length (connectors_of clause_clean courses) = length courses - 1"
    by (simp add: connectors_of_def)
  ultimately show ?thesis by blast
qed

theorem connectors_pairwise_witness:
  "connectors_of ''CS 225 and CS 233, CS 241'' [(''CS 225'', 0, 6), (''CS 233'', 11, 17), (''CS 241'', 19, 25)] ! 1
     = connector_claimed (lower (slice ''CS 225 and CS 233, CS 241'' 17 19))
   \<and> connector_claimed (lower (slice ''CS 225 and CS 233, CS 241'' 17 19)) = ConnLIST"
proof -
  have "connector_claimed (lower (slice ''CS 225 and CS 233, CS 241'' 17 19)) = ConnLIST"
    by code_simp
  moreover have "connectors_of ''CS 225 and CS 233, CS 241'' [(''CS 225'', 0, 6), (''CS 233'', 11, 17), (''CS 241'', 19, 25)] ! 1
     = connector_claimed (lower (slice ''CS 225 and CS 233, CS 241'' 17 19))"
    using connectors_pairwise [of "''CS 225 and CS 233, CS 241''" "[(''CS 225'', 0, 6), (''CS 233'', 11, 17), (''CS 241'', 19, 25)]"]
    by simp
  ultimately show ?thesis by (intro conjI)
qed

lemma lit_ci_6:
  "length w = 6 \<Longrightarrow> lit_ci w t i k = (if lower (slice t i (i + 6)) = w then k (i + 6) else None)"
  by (simp add: lit_ci_def)

lemma ONE_OF_RE_iff: "ONE_OF_RE t i = Some e \<longleftrightarrow> phrase_at t i \<and> e = i + 6"
proof -
  have l: "length ''one of'' = 6" "length ''any of'' = 6" by simp_all
  show ?thesis
    unfolding ONE_OF_RE_def phrase_at_def bnd_def alt_def lit_ci_6 [OF l(1)] lit_ci_6 [OF l(2)]
    by (auto split: option.splits if_splits)
qed

lemma ONE_OF_RE_None_iff: "ONE_OF_RE t i = None \<longleftrightarrow> \<not> phrase_at t i"
  using ONE_OF_RE_iff [of t i] by (cases "ONE_OF_RE t i") auto

lemma phrase_at_le: "phrase_at t p \<Longrightarrow> p \<le> length t"
proof -
  assume "phrase_at t p"
  then have "length (lower (slice t p (p + 6))) = 6"
    unfolding phrase_at_def by auto
  then have "min 6 (length t - p) = 6" by (simp add: lower_def slice_def)
  then show ?thesis by simp
qed

lemma search_ONE_OF_first:
  assumes "phrase_at t p" and "\<forall>q<p. \<not> phrase_at t q"
  shows "re_search ONE_OF_RE t = Some (p, p + 6)"
  unfolding re_search_Some_iff
  using assms phrase_at_le [OF assms(1)] by (simp add: ONE_OF_RE_iff ONE_OF_RE_None_iff)

text \<open>
  C1. Let \<open>p\<close> be the offset of the first whole-word occurrence of \<open>one of\<close> or
  \<open>any of\<close> (in any case) in the normalised clause, and let a course token start at
  or after \<open>p + 6\<close>, the end of the phrase. Then the result is the \<open>OR\<close> of the
  courses that start at or after the end of the phrase, in the order of the text; with
  courses before it, it is the \<open>AND\<close> of these courses, each a leaf, followed by that
  \<open>OR\<close>. With no course before the phrase the \<open>OR\<close> is returned as it is. The clause
  of the spec parses to the tree the spec gives.
\<close>

theorem one_of_grouping:
  "(let clause_clean = normalize_space clause;
        courses = find_course_spans clause_clean;
        prior = map COURSE (map fst (filter (\<lambda>(c, s, e). s < p + 6) courses));
        after = map COURSE (map fst (filter (\<lambda>(c, s, e). p + 6 \<le> s) courses))
    in phrase_at clause_clean p \<and> (\<forall>q<p. \<not> phrase_at clause_clean q) \<and> after \<noteq> []
       \<longrightarrow> parse_clause_into_group clause
             = (if prior = [] then OR after else AND (prior @ [OR after])))
   \<and> parse_clause_into_group ''MATH 231 and one of CS 225, CS 233, or CS 241''
       = AND [COURSE ''MATH 231'', OR [COURSE ''CS 225'', COURSE ''CS 233'', COURSE ''CS 241'']]"
proof -
  have ex: "parse_clause_into_group ''MATH 231 and one of CS 225, CS 233, or CS 241''
       = AND [COURSE ''MATH 231'', OR [COURSE ''CS 225'', COURSE ''CS 233'', COURSE ''CS 241'']]"
    by code_simp
  define cc where "cc = normalize_space clause"
  define courses where "courses = find_course_spans cc"
  define prior where "prior = map COURSE (map fst (filter (\<lambda>(c, s, e). s < p + 6) courses))"
  define after where "after = map COURSE (map fst (filter (\<lambda>(c, s, e). p + 6 \<le> s) courses))"
  have gen: "parse_clause_into_group clause = (if prior = [] then OR after else AND (prior @ [OR after]))"
    if ph: "phrase_at cc p" and first: "\<forall>q<p. \<not> phrase_at cc q" and ne: "after \<noteq> []"
  proof -
    have s: "re_search ONE_OF_RE cc = Some (p, p + 6)"
      using search_ONE_OF_first [OF ph first] .
    have cne: "courses \<noteq> []" using ne by (auto simp: after_def)
    have og: "one_of_group cc courses
        = Some (if prior = [] then OR after else AND (prior @ [OR after]))"
    proof (cases "prior = []")
      case True
      then show ?thesis
        using ne unfolding one_of_group_def s prior_def after_def
        by (simp add: Let_def)
    next
      case False
      then have "length (prior @ [OR after]) > 1" by (cases prior) auto
      then show ?thesis
        using ne False unfolding one_of_group_def s prior_def after_def
        by (simp add: Let_def)
    qed
    show ?thesis
      unfolding parse_clause_into_group_def Let_def
      using cne og by (simp add: cc_def courses_def)
  qed
  show ?thesis
    using gen ex unfolding Let_def cc_def courses_def prior_def after_def by blast
qed

theorem one_of_grouping_witness:
  "parse_clause_into_group ''CS 225 and any of MATH 231, MATH 241''
     = AND [COURSE ''CS 225'', OR [COURSE ''MATH 231'', COURSE ''MATH 241'']]"
proof -
  have n: "normalize_space ''CS 225 and any of MATH 231, MATH 241'' = ''CS 225 and any of MATH 231, MATH 241''"
    by code_simp
  have c: "find_course_spans ''CS 225 and any of MATH 231, MATH 241''
      = [(''CS 225'', 0, 6), (''MATH 231'', 18, 26), (''MATH 241'', 28, 36)]"
    by code_simp
  have ph: "phrase_at ''CS 225 and any of MATH 231, MATH 241'' 11" by code_simp
  have first: "\<forall>q<11. \<not> phrase_at ''CS 225 and any of MATH 231, MATH 241'' q"
  proof (intro allI impI)
    fix q :: nat
    assume "q < 11"
    then have "q \<in> set [0..<11]" by simp
    moreover have "list_all (\<lambda>q. \<not> phrase_at ''CS 225 and any of MATH 231, MATH 241'' q) [0..<11]"
      by code_simp
    ultimately show "\<not> phrase_at ''CS 225 and any of MATH 231, MATH 241'' q"
      unfolding list_all_iff by blast
  qed
  show ?thesis
    using one_of_grouping [of "''CS 225 and any of MATH 231, MATH 241''" 11] ph first
    unfolding Let_def n c by simp
qed

text \<open>
  C4. For a clause with courses that the "one of" window does not handle: with a
  connector \<open>AND\<close> and no \<open>OR\<close> the result is the \<open>AND\<close> of all course leaves in
  the order of the text (so too when every connector is \<open>AND\<close>); with an \<open>OR\<close> and
  no \<open>AND\<close> it is their \<open>OR\<close>; with neither but a \<open>LIST\<close> it is their \<open>OR\<close>; and
  with none of the three (one course, or \<open>UNKNOWN\<close> only) it is the single leaf for
  one course and the \<open>AND\<close> of the leaves for more. The comma-only clause of the spec
  parses to the \<open>OR\<close> of its three courses.
\<close>

theorem unmixed_connectors:
  "(let clause_clean = normalize_space clause;
        courses = find_course_spans clause_clean;
        connectors = connectors_of clause_clean courses;
        leaves = map (\<lambda>(c, s, e). COURSE c) courses
    in courses \<noteq> [] \<and> one_of_group clause_clean courses = None \<longrightarrow>
        (ConnAND \<in> set connectors \<and> ConnOR \<notin> set connectors
           \<longrightarrow> parse_clause_into_group clause = AND leaves)
      \<and> (ConnOR \<in> set connectors \<and> ConnAND \<notin> set connectors
           \<longrightarrow> parse_clause_into_group clause = OR leaves)
      \<and> (ConnAND \<notin> set connectors \<and> ConnOR \<notin> set connectors \<and> ConnLIST \<in> set connectors
           \<longrightarrow> parse_clause_into_group clause = OR leaves)
      \<and> (ConnAND \<notin> set connectors \<and> ConnOR \<notin> set connectors \<and> ConnLIST \<notin> set connectors
           \<longrightarrow> parse_clause_into_group clause
                 = (if length courses = 1 then COURSE (fst (courses ! 0)) else AND leaves)))
   \<and> parse_clause_into_group ''CS 225, CS 233, CS 241''
       = OR [COURSE ''CS 225'', COURSE ''CS 233'', COURSE ''CS 241'']"
proof -
  have ex: "parse_clause_into_group ''CS 225, CS 233, CS 241''
       = OR [COURSE ''CS 225'', COURSE ''CS 233'', COURSE ''CS 241'']"
    by code_simp
  define cc where "cc = normalize_space clause"
  define courses where "courses = find_course_spans cc"
  define cs where "cs = connectors_of cc courses"
  define leaves where "leaves = map (\<lambda>(c, s, e). COURSE c) courses"
  have p: "parse_clause_into_group clause
      = (if ConnAND \<in> set cs \<and> ConnOR \<notin> set cs then AND leaves
         else if ConnOR \<in> set cs \<and> ConnAND \<notin> set cs then OR leaves
         else if ConnAND \<notin> set cs \<and> ConnOR \<notin> set cs then
           (if list_ex (\<lambda>k. k = ConnLIST) cs then OR leaves
            else if length leaves > 1 then AND leaves else leaves ! 0)
         else combine_segments courses (segment_groups cc))"
    if "courses \<noteq> []" "one_of_group cc courses = None"
    using that unfolding parse_clause_into_group_def Let_def cc_def courses_def cs_def leaves_def
    by simp
  have single: "leaves ! 0 = COURSE (fst (courses ! 0))" if "courses \<noteq> []"
    using that unfolding leaves_def by (cases courses) (auto split: prod.splits)
  have len: "length leaves = length courses" by (simp add: leaves_def)
  have l: "list_ex (\<lambda>k. k = ConnLIST) cs \<longleftrightarrow> ConnLIST \<in> set cs"
    by (auto simp: list_ex_iff)
  have gen: "(ConnAND \<in> set cs \<and> ConnOR \<notin> set cs
           \<longrightarrow> parse_clause_into_group clause = AND leaves)
      \<and> (ConnOR \<in> set cs \<and> ConnAND \<notin> set cs
           \<longrightarrow> parse_clause_into_group clause = OR leaves)
      \<and> (ConnAND \<notin> set cs \<and> ConnOR \<notin> set cs \<and> ConnLIST \<in> set cs
           \<longrightarrow> parse_clause_into_group clause = OR leaves)
      \<and> (ConnAND \<notin> set cs \<and> ConnOR \<notin> set cs \<and> ConnLIST \<notin> set cs
           \<longrightarrow> parse_clause_into_group clause
                 = (if length courses = 1 then COURSE (fst (courses ! 0)) else AND leaves))"
    if ne: "courses \<noteq> []" and og: "one_of_group cc courses = None"
  proof -
    have "length courses = 1 \<or> length courses > 1" using ne by (cases courses) auto
    then show ?thesis
      unfolding p [OF ne og] l using single [OF ne] len by auto
  qed
  show ?thesis
    using gen ex unfolding Let_def cc_def courses_def cs_def leaves_def by blast
qed

theorem unmixed_connectors_witness:
  "parse_clause_into_group ''CS 225 and MATH 231'' = AND [COURSE ''CS 225'', COURSE ''MATH 231'']"
proof -
  have n: "normalize_space ''CS 225 and MATH 231'' = ''CS 225 and MATH 231''" by code_simp
  have c: "find_course_spans ''CS 225 and MATH 231'' = [(''CS 225'', 0, 6), (''MATH 231'', 11, 19)]"
    by code_simp
  have o: "one_of_group ''CS 225 and MATH 231'' [(''CS 225'', 0, 6), (''MATH 231'', 11, 19)] = None"
    by code_simp
  have k: "connectors_of ''CS 225 and MATH 231'' [(''CS 225'', 0, 6), (''MATH 231'', 11, 19)] = [ConnAND]"
    by code_simp
  show ?thesis
    using unmixed_connectors [of "''CS 225 and MATH 231''"] o
    unfolding Let_def n c k by simp
qed

lemma route_filter:
  "route cls (hs, cqs) =
     (hs @ map parse_clause_into_group
            (filter (\<lambda>c. \<not> is_coreq_clause c) (filter (\<lambda>c. parse_clause_into_group c \<noteq> EMPTY) cls)),
      cqs @ map parse_clause_into_group
            (filter is_coreq_clause (filter (\<lambda>c. parse_clause_into_group c \<noteq> EMPTY) cls)))"
  by (induction cls arbitrary: hs cqs) (auto simp: Let_def)

text \<open>
  C5. With the clauses of the text whose tree is not \<open>EMPTY\<close>, in their order: the
  \<open>coreq_ok\<close> tree is folded from the trees of those for which \<open>is_coreq_clause\<close>
  holds, the \<open>hard\<close> tree from the trees of the others; \<open>is_coreq_clause\<close> holds
  exactly when the lower-cased clause contains \<open>concurrent\<close>, \<open>co-requisite\<close> or
  \<open>corequisite\<close>, or the phrase pattern is found in it. The text of the spec parses to
  \<open>hard = EMPTY\<close> and \<open>coreq_ok = COURSE "MATH 231"\<close>.
\<close>

theorem coreq_routing:
  "(let routed = filter (\<lambda>c. parse_clause_into_group c \<noteq> EMPTY) (clauses_of text)
    in hard (parse_prereq_text text)
         = fold_groups (map parse_clause_into_group (filter (\<lambda>c. \<not> is_coreq_clause c) routed))
       \<and> coreq_ok (parse_prereq_text text)
         = fold_groups (map parse_clause_into_group (filter is_coreq_clause routed)))
   \<and> (is_coreq_clause c \<longleftrightarrow>
         contains ''concurrent'' (lower c) \<or> contains ''co-requisite'' (lower c)
         \<or> contains ''corequisite'' (lower c) \<or> re_search COREQ_RE (lower c) \<noteq> None)
   \<and> parse_prereq_text ''credit or concurrent registration in MATH 231''
       = \<lparr>hard = EMPTY, coreq_ok = COURSE ''MATH 231''\<rparr>"
proof -
  have ex: "parse_prereq_text ''credit or concurrent registration in MATH 231''
       = \<lparr>hard = EMPTY, coreq_ok = COURSE ''MATH 231''\<rparr>"
    by code_simp
  have co: "is_coreq_clause c \<longleftrightarrow>
         contains ''concurrent'' (lower c) \<or> contains ''co-requisite'' (lower c)
         \<or> contains ''corequisite'' (lower c) \<or> re_search COREQ_RE (lower c) \<noteq> None"
    by (simp add: is_coreq_clause_def Let_def)
  have r: "route (clauses_of text) ([], []) =
     (map parse_clause_into_group
            (filter (\<lambda>c. \<not> is_coreq_clause c) (filter (\<lambda>c. parse_clause_into_group c \<noteq> EMPTY) (clauses_of text))),
      map parse_clause_into_group
            (filter is_coreq_clause (filter (\<lambda>c. parse_clause_into_group c \<noteq> EMPTY) (clauses_of text))))"
    using route_filter [of "clauses_of text" "[]" "[]"] by simp
  have h: "hard (parse_prereq_text text)
         = fold_groups (map parse_clause_into_group (filter (\<lambda>c. \<not> is_coreq_clause c)
             (filter (\<lambda>c. parse_clause_into_group c \<noteq> EMPTY) (clauses_of text))))"
    unfolding parse_prereq_text_def Let_def r by (simp add: fold_groups_def)
  have q: "coreq_ok (parse_prereq_text text)
         = fold_groups (map parse_clause_into_group (filter is_coreq_clause
             (filter (\<lambda>c. parse_clause_into_group c \<noteq> EMPTY) (clauses_of text))))"
    unfolding parse_prereq_text_def Let_def r by (simp add: fold_groups_def)
  show ?thesis unfolding Let_def using h q co ex by (intro conjI)
qed

theorem coreq_routing_witness:
  "hard (parse_prereq_text ''CS 225; concurrent registration in MATH 231'') = COURSE ''CS 225''
   \<and> coreq_ok (parse_prereq_text ''CS 225; concurrent registration in MATH 231'') = COURSE ''MATH 231''"
proof -
  have c: "clauses_of ''CS 225; concurrent registration in MATH 231''
      = [''CS 225'', ''concurrent registration in MATH 231'']"
    by code_simp
  have p1: "parse_clause_into_group ''CS 225'' = COURSE ''CS 225''" by code_simp
  have p2: "parse_clause_into_group ''concurrent registration in MATH 231'' = COURSE ''MATH 231''"
    by code_simp
  have q1: "\<not> is_coreq_clause ''CS 225''" by code_simp
  have q2: "is_coreq_clause ''concurrent registration in MATH 231''" by code_simp
  show ?thesis
    using coreq_routing [of "''CS 225; concurrent registration in MATH 231''"]
    unfolding Let_def c by (simp add: p1 p2 q1 q2 fold_groups_def)
qed

section \<open>The leaves of the parser's trees\<close>

lemma leaves_course_items:
  "set (concat (map leaves (map (\<lambda>(c, s, e). COURSE c) courses))) = fst ` set courses"
  by (induction courses) (auto split: prod.splits)

lemma leaves_map_COURSE: "concat (map leaves (map COURSE cs)) = cs"
  by (induction cs) auto

lemma leaves_one_of_group:
  assumes "one_of_group cc courses = Some grp"
  shows "set (leaves grp) \<subseteq> fst ` set courses"
proof -
  from assms obtain p start_idx where s: "re_search ONE_OF_RE cc = Some (p, start_idx)"
    unfolding one_of_group_def by (auto split: option.splits)
  define or_list where "or_list = map fst (filter (\<lambda>(c, s, e). s \<ge> start_idx) courses)"
  define prior where "prior = map fst (filter (\<lambda>(c, s, e). s < start_idx) courses)"
  define items where "items = map COURSE prior @ [OR (map COURSE or_list)]"
  from assms have grp: "grp = (if length items > 1 then AND items else items ! 0)"
    unfolding one_of_group_def s or_list_def prior_def items_def
    by (simp add: Let_def split: if_splits)
  have sub: "set prior \<subseteq> fst ` set courses" "set or_list \<subseteq> fst ` set courses"
    unfolding prior_def or_list_def by auto
  have all: "set (concat (map leaves items)) \<subseteq> fst ` set courses"
    unfolding items_def using sub by (simp add: leaves_map_COURSE)
  show ?thesis
  proof (cases "length items > 1")
    case True
    then show ?thesis using grp all by simp
  next
    case False
    then have "prior = []" unfolding items_def by (cases prior) auto
    then have "grp = OR (map COURSE or_list)" using grp False by (simp add: items_def)
    then show ?thesis using sub(2) by (simp add: leaves_map_COURSE)
  qed
qed

lemma leaves_segment_group:
  "set (leaves (segment_group seg)) = fst ` set (find_course_spans seg)"
proof -
  define items where "items = map (\<lambda>(c, s, e). COURSE c) (find_course_spans seg)"
  have "segment_group seg = AND items \<or> segment_group seg = OR items"
    unfolding segment_group_def Let_def items_def by simp
  moreover have "set (leaves (AND items)) = fst ` set (find_course_spans seg)"
    "set (leaves (OR items)) = fst ` set (find_course_spans seg)"
    unfolding items_def leaves.simps by (rule leaves_course_items)+
  ultimately show ?thesis by metis
qed

lemma leaves_combine_segments:
  "set (leaves (combine_segments courses subitems))
     \<subseteq> fst ` set courses \<union> (\<Union>g \<in> set subitems. set (leaves g))"
proof (cases "subitems = []")
  case True
  then show ?thesis
    unfolding combine_segments_def Let_def using leaves_course_items [of courses]
    by (simp split: if_splits)
next
  case False
  then show ?thesis
    unfolding combine_segments_def Let_def by (auto split: if_splits)
qed

lemma segment_token:
  assumes "seg \<in> set (segments_of cc)" and "(c, s, e) \<in> set (find_course_spans seg)"
  shows "course_token_in cc c"
proof -
  from assms(1) obtain piece where p: "piece \<in> set (split_runs CHR '','' cc)" "seg = normalize_space piece"
    unfolding segments_of_def by auto
  have "course_token_in seg c"
    using find_course_spans_sound [OF assms(2)] unfolding course_token_in_iff by blast
  then have "course_token_in piece c" unfolding p(2) course_token_normalize_iff .
  then show ?thesis using course_token_split_back [OF p(1) comma_class(1)] by blast
qed

lemma leaves_parse_clause:
  assumes "ref \<in> set (leaves (parse_clause_into_group clause))"
  shows "course_token_in (normalize_space clause) ref"
proof -
  define cc where "cc = normalize_space clause"
  define courses where "courses = find_course_spans cc"
  have tok: "course_token_in cc r" if "r \<in> fst ` set courses" for r
  proof -
    from that obtain s e where "(r, s, e) \<in> set (find_course_spans cc)"
      unfolding courses_def by force
    from find_course_spans_sound [OF this] show ?thesis unfolding course_token_in_iff by blast
  qed
  have ne: "courses \<noteq> []"
  proof
    assume "courses = []"
    then have "parse_clause_into_group clause = EMPTY"
      unfolding parse_clause_into_group_def Let_def cc_def courses_def by simp
    then show False using assms by simp
  qed
  show ?thesis
  proof (cases "one_of_group cc courses")
    case (Some grp)
    then have "parse_clause_into_group clause = grp"
      unfolding parse_clause_into_group_def Let_def using ne by (simp add: cc_def courses_def)
    then have "ref \<in> fst ` set courses" using assms leaves_one_of_group [OF Some] by auto
    then show ?thesis using tok by (simp add: cc_def)
  next
    case None
    define items where "items = map (\<lambda>(c, s, e). COURSE c) courses"
    have it: "set (concat (map leaves items)) = fst ` set courses"
      unfolding items_def by (rule leaves_course_items)
    have it0: "set (leaves (items ! 0)) \<subseteq> fst ` set courses"
    proof -
      have "items \<noteq> []" using ne by (simp add: items_def)
      then have "items ! 0 \<in> set items" by (cases items) auto
      then show ?thesis using it by auto
    qed
    have p: "parse_clause_into_group clause = AND items \<or> parse_clause_into_group clause = OR items
        \<or> parse_clause_into_group clause = items ! 0
        \<or> parse_clause_into_group clause = combine_segments courses (segment_groups cc)"
      unfolding parse_clause_into_group_def Let_def using ne None
      by (simp add: cc_def courses_def items_def)
    have seg: "set (leaves (combine_segments courses (segment_groups cc)))
        \<subseteq> {r. course_token_in cc r}"
    proof
      fix r
      assume "r \<in> set (leaves (combine_segments courses (segment_groups cc)))"
      then have "r \<in> fst ` set courses \<or> (\<exists>g \<in> set (segment_groups cc). r \<in> set (leaves g))"
        using leaves_combine_segments [of courses "segment_groups cc"] by auto
      then show "r \<in> {r. course_token_in cc r}"
      proof
        assume "r \<in> fst ` set courses"
        then show ?thesis using tok by simp
      next
        assume "\<exists>g \<in> set (segment_groups cc). r \<in> set (leaves g)"
        then obtain sg where sg: "sg \<in> set (segments_of cc)" "r \<in> set (leaves (segment_group sg))"
          unfolding segment_groups_def by auto
        then obtain s e where "(r, s, e) \<in> set (find_course_spans sg)"
          unfolding leaves_segment_group by force
        from segment_token [OF sg(1) this] show ?thesis by simp
      qed
    qed
    have fin: "course_token_in (normalize_space clause) ref" if "ref \<in> fst ` set courses"
      using tok [OF that] unfolding cc_def .
    from p show ?thesis
    proof (elim disjE)
      assume a: "parse_clause_into_group clause = AND items"
      from assms have "ref \<in> set (leaves (AND items))" unfolding a .
      then have "ref \<in> set (concat (map leaves items))" by (simp only: leaves.simps)
      then have "ref \<in> fst ` set courses" unfolding it .
      then show ?thesis by (rule fin)
    next
      assume a: "parse_clause_into_group clause = OR items"
      from assms have "ref \<in> set (leaves (OR items))" unfolding a .
      then have "ref \<in> set (concat (map leaves items))" by (simp only: leaves.simps)
      then have "ref \<in> fst ` set courses" unfolding it .
      then show ?thesis by (rule fin)
    next
      assume a: "parse_clause_into_group clause = items ! 0"
      from assms have "ref \<in> set (leaves (items ! 0))" unfolding a .
      then have "ref \<in> fst ` set courses" using it0 by blast
      then show ?thesis by (rule fin)
    next
      assume a: "parse_clause_into_group clause = combine_segments courses (segment_groups cc)"
      from assms have "ref \<in> set (leaves (combine_segments courses (segment_groups cc)))"
        unfolding a .
      then have "course_token_in cc ref" using seg by blast
      then show ?thesis unfolding cc_def .
    qed
  qed
qed

lemma leaves_fold_groups: "set (leaves (fold_groups gs)) = (\<Union>g \<in> set gs. set (leaves g))"
proof (cases gs)
  case Nil
  then show ?thesis by (simp add: fold_groups_def)
next
  case (Cons g gs')
  then show ?thesis by (cases gs') (simp_all add: fold_groups_def)
qed

lemma parse_prereq_text_trees:
  "hard (parse_prereq_text text)
     = fold_groups (map parse_clause_into_group (filter (\<lambda>c. \<not> is_coreq_clause c)
         (filter (\<lambda>c. parse_clause_into_group c \<noteq> EMPTY) (clauses_of text))))"
  "coreq_ok (parse_prereq_text text)
     = fold_groups (map parse_clause_into_group (filter is_coreq_clause
         (filter (\<lambda>c. parse_clause_into_group c \<noteq> EMPTY) (clauses_of text))))"
proof -
  have r: "route (clauses_of text) ([], []) =
     (map parse_clause_into_group
            (filter (\<lambda>c. \<not> is_coreq_clause c) (filter (\<lambda>c. parse_clause_into_group c \<noteq> EMPTY) (clauses_of text))),
      map parse_clause_into_group
            (filter is_coreq_clause (filter (\<lambda>c. parse_clause_into_group c \<noteq> EMPTY) (clauses_of text))))"
    using route_filter [of "clauses_of text" "[]" "[]"] by simp
  show "hard (parse_prereq_text text)
     = fold_groups (map parse_clause_into_group (filter (\<lambda>c. \<not> is_coreq_clause c)
         (filter (\<lambda>c. parse_clause_into_group c \<noteq> EMPTY) (clauses_of text))))"
    unfolding parse_prereq_text_def Let_def r by (simp add: fold_groups_def)
  show "coreq_ok (parse_prereq_text text)
     = fold_groups (map parse_clause_into_group (filter is_coreq_clause
         (filter (\<lambda>c. parse_clause_into_group c \<noteq> EMPTY) (clauses_of text))))"
    unfolding parse_prereq_text_def Let_def r by (simp add: fold_groups_def)
qed

lemma clause_token_text:
  assumes "clause \<in> set (clauses_of text)" and "course_token_in clause ref"
  shows "course_token_in text ref"
proof -
  from assms(1) obtain piece where p: "piece \<in> set (split_runs CHR '';'' text)"
      "clause = normalize_space piece"
    unfolding clauses_of_def by auto
  have "course_token_in piece ref" using assms(2) unfolding p(2) course_token_normalize_iff .
  then show ?thesis using course_token_split_back [OF p(1) semicolon_class(1)] by blast
qed

text \<open>
  C6. Every course reference at a \<open>COURSE\<close> leaf of the \<open>hard\<close> or the \<open>coreq_ok\<close>
  tree of a text is a leaf of the tree of a clause of the text and matches the
  course-token pattern at an offset of that clause, and at an offset of the text itself: there the text has two to four upper-case
  letters, whitespace or none, two or three digits and at most one upper-case letter,
  with no word character before or after, and the reference is the letters, a blank,
  and the digits with the trailing letter.
\<close>

theorem no_fabricated_course:
  "\<forall>ref \<in> set (leaves (hard (parse_prereq_text text))) \<union> set (leaves (coreq_ok (parse_prereq_text text))).
     (\<exists>clause \<in> set (clauses_of text).
         ref \<in> set (leaves (parse_clause_into_group clause)) \<and> (\<exists>i. course_token_at clause i ref))
     \<and> (\<exists>i. course_token_at text i ref)"
proof
  fix ref
  assume "ref \<in> set (leaves (hard (parse_prereq_text text))) \<union> set (leaves (coreq_ok (parse_prereq_text text)))"
  then obtain clause where c: "clause \<in> set (clauses_of text)"
      "ref \<in> set (leaves (parse_clause_into_group clause))"
    unfolding parse_prereq_text_trees leaves_fold_groups by auto
  have "course_token_in (normalize_space clause) ref" using leaves_parse_clause [OF c(2)] .
  then have 1: "course_token_in clause ref" unfolding course_token_normalize_iff .
  then have 2: "course_token_in text ref" using clause_token_text [OF c(1)] by blast
  show "(\<exists>clause \<in> set (clauses_of text).
         ref \<in> set (leaves (parse_clause_into_group clause)) \<and> (\<exists>i. course_token_at clause i ref))
     \<and> (\<exists>i. course_token_at text i ref)"
    using c 1 2 unfolding course_token_in_iff by blast
qed

theorem no_fabricated_course_witness:
  "course_token_at ''CS 225; MATH 231'' 8 ''MATH 231''
   \<and> (\<exists>i. course_token_at ''CS 225; MATH 231'' i ''MATH 231'')"
proof -
  have "leaves (hard (parse_prereq_text ''CS 225; MATH 231'')) = [''CS 225'', ''MATH 231'']"
    by code_simp
  then have "''MATH 231'' \<in> set (leaves (hard (parse_prereq_text ''CS 225; MATH 231'')))
      \<union> set (leaves (coreq_ok (parse_prereq_text ''CS 225; MATH 231'')))"
    by simp
  from bspec [OF no_fabricated_course this]
  have "\<exists>i. course_token_at ''CS 225; MATH 231'' i ''MATH 231''" by (rule conjunct2)
  moreover have "course_token_at ''CS 225; MATH 231'' 8 ''MATH 231''" by code_simp
  ultimately show ?thesis by (intro conjI)
qed

lemma segment_group_kind: "is_AND (segment_group seg) \<or> is_OR (segment_group seg)"
  unfolding segment_group_def Let_def by simp

lemma AND_not_OR: "is_AND g \<Longrightarrow> \<not> is_OR g"
  by (cases g) simp_all

lemma combine_segments_kinds:
  assumes ne: "groups \<noteq> []" and kinds: "\<forall>g \<in> set groups. is_AND g \<or> is_OR g"
  shows "combine_segments courses groups
     = (if list_all is_AND groups then AND groups
        else if list_all is_OR groups then OR groups else AND groups)"
proof -
  have a: "length (filter is_AND groups) \<noteq> 0 \<and> length (filter is_OR groups) = 0
      \<longleftrightarrow> list_all is_AND groups"
  proof
    assume h: "length (filter is_AND groups) \<noteq> 0 \<and> length (filter is_OR groups) = 0"
    then have "\<forall>g \<in> set groups. \<not> is_OR g" by (simp add: filter_empty_conv)
    then show "list_all is_AND groups" using kinds by (auto simp: list_all_iff)
  next
    assume h: "list_all is_AND groups"
    then have "filter is_AND groups = groups" by (simp add: list_all_iff)
    moreover have "filter is_OR groups = []"
      using h AND_not_OR by (auto simp: list_all_iff filter_empty_conv)
    ultimately show "length (filter is_AND groups) \<noteq> 0 \<and> length (filter is_OR groups) = 0"
      using ne by simp
  qed
  have b: "length (filter is_OR groups) \<noteq> 0 \<and> length (filter is_AND groups) = 0
      \<longleftrightarrow> list_all is_OR groups"
  proof
    assume h: "length (filter is_OR groups) \<noteq> 0 \<and> length (filter is_AND groups) = 0"
    then have "\<forall>g \<in> set groups. \<not> is_AND g" by (simp add: filter_empty_conv)
    then show "list_all is_OR groups" using kinds by (auto simp: list_all_iff)
  next
    assume h: "list_all is_OR groups"
    then have "filter is_OR groups = groups" by (simp add: list_all_iff)
    moreover have "filter is_AND groups = []"
      using h AND_not_OR by (auto simp: list_all_iff filter_empty_conv)
    ultimately show "length (filter is_OR groups) \<noteq> 0 \<and> length (filter is_AND groups) = 0"
      using ne by simp
  qed
  have "combine_segments courses groups
     = (if length (filter is_AND groups) \<noteq> 0 \<and> length (filter is_OR groups) = 0 then AND groups
        else if length (filter is_OR groups) \<noteq> 0 \<and> length (filter is_AND groups) = 0 then OR groups
        else AND groups)"
    unfolding combine_segments_def Let_def using ne by simp
  then show ?thesis unfolding a b .
qed

lemma no_token_in_Nil: "\<not> course_token_in [] ref"
proof
  assume "course_token_in [] ref"
  then obtain pre L W D U post where "[] = pre @ L @ W @ D @ U @ post" "course_shape L W D U"
    by (rule course_token_inE)
  then show False unfolding course_shape_def by auto
qed

text \<open>A clause with a course token has a comma segment with a course token.\<close>

lemma segment_groups_nonempty:
  assumes "find_course_spans cc \<noteq> []"
  shows "segment_groups cc \<noteq> []"
proof -
  from assms obtain ref where "course_token_in cc ref"
    unfolding find_course_spans_nonempty_iff by blast
  from course_token_split [OF this comma_class(3) comma_class(2) comma_class(4)]
  obtain piece where p: "piece \<in> set (split_runs CHR '','' cc)" "course_token_in piece ref"
    by blast
  have t: "course_token_in (normalize_space piece) ref"
    using p(2) unfolding course_token_normalize_iff .
  then have "normalize_space piece \<noteq> []" using no_token_in_Nil by auto
  then have "normalize_space piece \<in> set (segments_of cc)"
    unfolding segments_of_def using p(1) by auto
  moreover have "find_course_spans (normalize_space piece) \<noteq> []"
    unfolding find_course_spans_nonempty_iff using t by blast
  ultimately have "normalize_space piece
      \<in> set (filter (\<lambda>seg. find_course_spans seg \<noteq> []) (segments_of cc))"
    by simp
  then have "filter (\<lambda>seg. find_course_spans seg \<noteq> []) (segments_of cc) \<noteq> []"
    by (metis empty_iff empty_set)
  then show ?thesis unfolding segment_groups_def by simp
qed

text \<open>
  C2. For a clause with courses that the "one of" window does not handle and whose
  connectors include both \<open>AND\<close> and \<open>OR\<close>: the segments are the pieces of the
  normalised clause between runs of commas, normalised, the empty ones dropped, in
  their order; each segment with a course token gives one group, the \<open>AND\<close> of its
  course leaves when the lower-cased segment has the word \<open>and\<close> and not the word
  \<open>or\<close>, and their \<open>OR\<close> when it has \<open>or\<close> and not \<open>and\<close> and in every other case;
  there is at least one group; and the result is the \<open>AND\<close> of the groups when all
  are \<open>AND\<close>, their \<open>OR\<close> when all are \<open>OR\<close>, and their \<open>AND\<close> when the kinds are
  mixed.
\<close>

theorem mixed_connectors:
  "(let clause_clean = normalize_space clause;
        courses = find_course_spans clause_clean;
        connectors = connectors_of clause_clean courses;
        segments = map normalize_space
                     (filter (\<lambda>s. normalize_space s \<noteq> []) (split_runs CHR '','' clause_clean));
        groups = map (\<lambda>seg.
                   let leaves = map (\<lambda>(c, s, e). COURSE c) (find_course_spans seg) in
                   if has_word ''and'' (lower seg) \<and> \<not> has_word ''or'' (lower seg) then AND leaves
                   else if has_word ''or'' (lower seg) \<and> \<not> has_word ''and'' (lower seg) then OR leaves
                   else OR leaves)
                 (filter (\<lambda>seg. find_course_spans seg \<noteq> []) segments)
    in courses \<noteq> [] \<and> one_of_group clause_clean courses = None
       \<and> ConnAND \<in> set connectors \<and> ConnOR \<in> set connectors
       \<longrightarrow> groups \<noteq> []
           \<and> parse_clause_into_group clause
               = (if list_all is_AND groups then AND groups
                  else if list_all is_OR groups then OR groups
                  else AND groups))"
proof -
  define cc where "cc = normalize_space clause"
  define courses where "courses = find_course_spans cc"
  define cs where "cs = connectors_of cc courses"
  have g: "map (\<lambda>seg.
                   let leaves = map (\<lambda>(c, s, e). COURSE c) (find_course_spans seg) in
                   if has_word ''and'' (lower seg) \<and> \<not> has_word ''or'' (lower seg) then AND leaves
                   else if has_word ''or'' (lower seg) \<and> \<not> has_word ''and'' (lower seg) then OR leaves
                   else OR leaves)
                 (filter (\<lambda>seg. find_course_spans seg \<noteq> [])
                    (map normalize_space
                     (filter (\<lambda>s. normalize_space s \<noteq> []) (split_runs CHR '','' cc))))
       = segment_groups cc"
    unfolding segment_groups_def segments_of_def segment_group_def Let_def ..
  have main: "segment_groups cc \<noteq> []
           \<and> parse_clause_into_group clause
               = (if list_all is_AND (segment_groups cc) then AND (segment_groups cc)
                  else if list_all is_OR (segment_groups cc) then OR (segment_groups cc)
                  else AND (segment_groups cc))"
    if ne: "courses \<noteq> []" and og: "one_of_group cc courses = None"
      and a: "ConnAND \<in> set cs" and o: "ConnOR \<in> set cs"
  proof -
    have gn: "segment_groups cc \<noteq> []"
      using segment_groups_nonempty ne unfolding courses_def by blast
    have kinds: "\<forall>g \<in> set (segment_groups cc). is_AND g \<or> is_OR g"
      unfolding segment_groups_def using segment_group_kind by auto
    have "parse_clause_into_group clause = combine_segments courses (segment_groups cc)"
      unfolding parse_clause_into_group_def Let_def
      using ne og a o by (simp add: cc_def courses_def cs_def)
    then show ?thesis using gn combine_segments_kinds [OF gn kinds] by simp
  qed
  note g' = g [unfolded Let_def]
  show ?thesis
    unfolding Let_def
    unfolding cc_def [symmetric]
    unfolding g' courses_def [symmetric]
    unfolding cs_def [symmetric]
    using main by blast
qed

theorem mixed_connectors_witness:
  "parse_clause_into_group ''CS 225 and CS 233, or CS 241''
     = AND [AND [COURSE ''CS 225'', COURSE ''CS 233''], OR [COURSE ''CS 241'']]"
proof -
  have n: "normalize_space ''CS 225 and CS 233, or CS 241'' = ''CS 225 and CS 233, or CS 241''"
    by code_simp
  have c: "find_course_spans ''CS 225 and CS 233, or CS 241''
      = [(''CS 225'', 0, 6), (''CS 233'', 11, 17), (''CS 241'', 22, 28)]"
    by code_simp
  have og: "one_of_group ''CS 225 and CS 233, or CS 241''
      [(''CS 225'', 0, 6), (''CS 233'', 11, 17), (''CS 241'', 22, 28)] = None"
    by code_simp
  have k: "connectors_of ''CS 225 and CS 233, or CS 241''
      [(''CS 225'', 0, 6), (''CS 233'', 11, 17), (''CS 241'', 22, 28)] = [ConnAND, ConnOR]"
    by code_simp
  have g: "map (\<lambda>seg.
                   let leaves = map (\<lambda>(c, s, e). COURSE c) (find_course_spans seg) in
                   if has_word ''and'' (lower seg) \<and> \<not> has_word ''or'' (lower seg) then AND leaves
                   else if has_word ''or'' (lower seg) \<and> \<not> has_word ''and'' (lower seg) then OR leaves
                   else OR leaves)
                 (filter (\<lambda>seg. find_course_spans seg \<noteq> [])
                    (map normalize_space
                     (filter (\<lambda>s. normalize_space s \<noteq> [])
                        (split_runs CHR '','' ''CS 225 and CS 233, or CS 241''))))
       = [AND [COURSE ''CS 225'', COURSE ''CS 233''], OR [COURSE ''CS 241'']]"
    by code_simp
  show ?thesis
    using mixed_connectors [of "''CS 225 and CS 233, or CS 241''"]
    unfolding Let_def n unfolding c g [unfolded Let_def] unfolding k og by simp
qed

section \<open>The negative phrasings\<close>

lemma lit_ci_zip:
  assumes "t = pre @ x @ rest" and "lower x = w"
  shows "lit_ci w t (length pre) k = k (length pre + length x)"
proof -
  have l: "length w = length x" using assms(2) by (auto simp: lower_def)
  have "slice t (length pre) (length pre + length x) = x" using slice_mid [OF assms(1)] .
  then show ?thesis unfolding lit_ci_def l using assms(2) by simp
qed

lemma lit_zip:
  assumes "t = pre @ x @ rest"
  shows "lit x t (length pre) k = k (length pre + length x)"
  unfolding lit_def using slice_mid [OF assms] by simp

lemma lower_ends:
  assumes "lower w = v" and "v \<noteq> []"
  shows "w \<noteq> []" "char_lower (hd w) = hd v" "char_lower (last w) = last v"
proof -
  show w: "w \<noteq> []" using assms by (auto simp: lower_def)
  show "char_lower (hd w) = hd v" using assms(1) w by (auto simp: lower_def hd_map)
  show "char_lower (last w) = last v" using assms(1) w by (auto simp: lower_def last_map)
qed

lemma contains_lowerD:
  assumes "contains v (lower text)"
  obtains p w q where "text = p @ w @ q" "lower w = v"
proof -
  from assms obtain p' q' where a: "map char_lower text = p' @ (v @ q')"
    unfolding contains_iff lower_def by blast
  from iffD1 [OF map_eq_append_conv a]
  obtain p r where 1: "text = p @ r" "v @ q' = map char_lower r" by blast
  from 1(2) have b: "map char_lower r = v @ q'" by (rule sym)
  from iffD1 [OF map_eq_append_conv b]
  obtain w q where 2: "r = w @ q" "v = map char_lower w" by blast
  have "text = p @ w @ q" using 1(1) 2(1) by simp
  moreover have "lower w = v" using 2(2) by (simp add: lower_def)
  ultimately show ?thesis by (rule that)
qed

lemma is_none_text_no_prerequisites:
  assumes "contains ''no prerequisites'' (lower text)"
  shows "is_none_text text"
proof -
  from assms obtain p w q where t: "text = p @ w @ q" and w: "lower w = ''no prerequisites''"
    by (rule contains_lowerD)
  note e = lower_ends [OF w]
  have n: "\<not> is_space CHR ''n''" "\<not> is_space CHR ''s''" by code_simp+
  have h: "\<not> is_space (hd w)" using e(2) n(1) lower_not_space [of "hd w"] by simp
  have l: "\<not> is_space (last w)" using e(3) n(2) lower_not_space [of "last w"] by simp
  obtain p' q' where s: "strip text = p' @ w @ q'"
    using strip_keeps [OF t e(1) h l] by auto
  have "NONE_PATTERN_1 (strip text) (length p') = Some (length p' + length w)"
    unfolding NONE_PATTERN_1_def using lit_ci_zip [OF s w] .
  moreover have "length p' \<le> length (strip text)" using s by simp
  ultimately have "re_search NONE_PATTERN_1 (strip text) \<noteq> None"
    unfolding re_search_None_iff by force
  then show ?thesis unfolding is_none_text_def NONE_PATTERNS_def Let_def by simp
qed

lemma phrase_ci_in_iff: "phrase_ci_in phrase text \<longleftrightarrow> contains phrase (lower text)"
  unfolding phrase_ci_in_def phrase_ci_at_def contains_def lower_def slice_def
  by (simp add: take_map drop_map)

lemma is_none_text_prerequisite_none:
  assumes t: "text = p @ w @ s @ '':'' @ W @ n @ q"
    and w: "lower w = ''prerequisite''" and s: "s = [] \<or> lower s = ''s''"
    and W: "list_all is_space W" and n: "lower n = ''none''"
    and q: "q = [] \<or> \<not> is_word (hd q)"
  shows "is_none_text text"
proof -
  note ew = lower_ends [OF w]
  note en = lower_ends [OF n]
  have c: "\<not> is_space CHR ''p''" "\<not> is_space CHR ''e''" "is_word CHR ''e''" by code_simp+
  define x where "x = w @ s @ '':'' @ W @ n"
  have tx: "text = p @ x @ q" using t by (simp add: x_def)
  have xne: "x \<noteq> []" using ew(1) by (simp add: x_def)
  have hx: "\<not> is_space (hd x)"
    using ew(1,2) c(1) lower_not_space [of "hd w"] by (simp add: x_def)
  have lastx: "last x = last n" using en(1) by (simp add: x_def)
  have lx: "\<not> is_space (last x)"
    unfolding lastx using en(3) c(2) lower_not_space [of "last n"] by simp
  have wl: "is_word (last n)" using en(3) c(3) lower_word [of "last n"] by simp
  obtain p' q' where st: "strip text = p' @ x @ q'" and q': "q' = [] \<or> (q \<noteq> [] \<and> hd q' = hd q)"
    using strip_keeps [OF tx xne hx lx] by auto
  define u where "u = strip text"
  have u: "u = p' @ w @ s @ '':'' @ W @ n @ q'" using st by (simp add: u_def x_def)
  define i where "i = length p'"
  define a where "a = i + length w"
  define b where "b = a + length s"
  define c' where "c' = b + length '':''"
  define d where "d = c' + length W"
  define e where "e = d + length n"
  have 6: "bnd u e (\<lambda>_. Some e) \<noteq> None"
  proof -
    have len: "length (p' @ w @ s @ '':'' @ W @ n) = e"
      by (simp add: i_def a_def b_def c'_def d_def e_def)
    have "last (p' @ w @ s @ '':'' @ W @ n) = last n" using en(1) by simp
    then have "is_word (last (p' @ w @ s @ '':'' @ W @ n))" using wl by simp
    moreover have "p' @ w @ s @ '':'' @ W @ n \<noteq> []" using en(1) by simp
    moreover have "\<not> (q' \<noteq> [] \<and> is_word (hd q'))" using q' q by auto
    ultimately have "word_boundary ((p' @ w @ s @ '':'' @ W @ n) @ q')
        (length (p' @ w @ s @ '':'' @ W @ n))"
      unfolding word_boundary_zip by blast
    then have "word_boundary u e" unfolding len using u by simp
    then show ?thesis by (simp add: bnd_def)
  qed
  have 5: "lit_ci ''none'' u d (\<lambda>e. bnd u e (\<lambda>_. Some e)) \<noteq> None"
  proof -
    have "u = (p' @ w @ s @ '':'' @ W) @ n @ q'" using u by simp
    from lit_ci_zip [OF this n, of "\<lambda>e. bnd u e (\<lambda>_. Some e)"] 6
    show ?thesis by (simp add: i_def a_def b_def c'_def d_def e_def add.assoc)
  qed
  have 4: "rep is_space 0 None u c' (\<lambda>d. lit_ci ''none'' u d (\<lambda>e. bnd u e (\<lambda>_. Some e))) \<noteq> None"
  proof -
    have z: "u = (p' @ w @ s @ '':'') @ W @ (n @ q')" using u by simp
    have "length W \<le> run is_space u (length (p' @ w @ s @ '':''))"
      using run_ge [OF z W] .
    then have r: "length W \<le> run is_space u c'"
      by (simp add: i_def a_def b_def c'_def add.assoc)
    show ?thesis
      using 5 r by (intro rep_not_None [of _ "length W"]) (simp_all add: d_def)
  qed
  have 3: "lit '':'' u b (\<lambda>c. rep is_space 0 None u c
      (\<lambda>d. lit_ci ''none'' u d (\<lambda>e. bnd u e (\<lambda>_. Some e)))) \<noteq> None"
  proof -
    have "u = (p' @ w @ s) @ '':'' @ (W @ n @ q')" using u by simp
    from lit_zip [OF this, of "\<lambda>c. rep is_space 0 None u c
      (\<lambda>d. lit_ci ''none'' u d (\<lambda>e. bnd u e (\<lambda>_. Some e)))"] 4
    show ?thesis by (simp add: i_def a_def b_def c'_def add.assoc)
  qed
  have 2: "rep (\<lambda>c. char_lower c = CHR ''s'') 0 (Some 1) u a (\<lambda>b. lit '':'' u b (\<lambda>c.
      rep is_space 0 None u c (\<lambda>d. lit_ci ''none'' u d (\<lambda>e. bnd u e (\<lambda>_. Some e))))) \<noteq> None"
  proof -
    have sl: "list_all (\<lambda>c. char_lower c = CHR ''s'') s" "length s \<le> 1"
      using s by (auto simp: lower_def)
    have z: "u = (p' @ w) @ s @ ('':'' @ W @ n @ q')" using u by simp
    have "length s \<le> run (\<lambda>c. char_lower c = CHR ''s'') u (length (p' @ w))"
      using run_ge [OF z sl(1)] .
    then have r: "length s \<le> run (\<lambda>c. char_lower c = CHR ''s'') u a"
      by (simp add: i_def a_def)
    show ?thesis
      using 3 r sl(2) by (intro rep_not_None [of _ "length s"]) (simp_all add: b_def)
  qed
  have 1: "NONE_PATTERN_2 u i \<noteq> None"
  proof -
    have z: "u = p' @ w @ (s @ '':'' @ W @ n @ q')" using u by simp
    show ?thesis
      unfolding NONE_PATTERN_2_def i_def lit_ci_zip [OF z w]
      using 2 by (simp add: i_def a_def)
  qed
  have iu: "i \<le> length u" using u by (simp add: i_def)
  have "re_search NONE_PATTERN_2 u \<noteq> None"
  proof
    assume "re_search NONE_PATTERN_2 u = None"
    then have "\<forall>j \<le> length u. NONE_PATTERN_2 u j = None" unfolding re_search_None_iff .
    then have "i \<le> length u \<longrightarrow> NONE_PATTERN_2 u i = None" by (rule spec)
    then have "NONE_PATTERN_2 u i = None" using iu by (rule mp)
    with 1 show False by (rule notE)
  qed
  then have "re_search NONE_PATTERN_2 (strip text) \<noteq> None" unfolding u_def .
  then show ?thesis unfolding is_none_text_def NONE_PATTERNS_def Let_def by simp
qed

lemma lower_appendE:
  assumes "lower x = a @ b"
  obtains u v where "x = u @ v" "lower u = a" "lower v = b"
proof -
  from assms have "map char_lower x = a @ b" by (simp only: lower_def)
  from iffD1 [OF map_eq_append_conv this]
  obtain u v where "x = u @ v" "a = map char_lower u" "b = map char_lower v" by blast
  then have "x = u @ v" "lower u = a" "lower v = b" by (simp_all add: lower_def)
  then show ?thesis by (rule that)
qed

lemma char_lower_code:
  "code (char_lower c) =
     (if (65 \<le> code c \<and> code c \<le> 90) \<or> (192 \<le> code c \<and> code c \<le> 214)
         \<or> (216 \<le> code c \<and> code c \<le> 222)
      then code c + 32 else code c)"
proof (cases "(65 \<le> code c \<and> code c \<le> 90) \<or> (192 \<le> code c \<and> code c \<le> 214)
      \<or> (216 \<le> code c \<and> code c \<le> 222)")
  case True
  then have l: "code c + 32 < 256" by presburger
  have "char_lower c = char_of (code c + 32)"
    unfolding char_lower_def Let_def using True by (simp only: if_True)
  then have "code (char_lower c) = (code c + 32) mod 256" by (simp add: code_def)
  then show ?thesis using True l by (simp only: if_True mod_less)
next
  case False
  then have "char_lower c = c" unfolding char_lower_def Let_def by (simp only: if_False)
  then show ?thesis using False by (simp only: if_False)
qed

lemma lower_colon:
  assumes "lower v = '':''"
  shows "v = '':''"
proof -
  from assms obtain c where v: "v = [c]" and c: "char_lower c = CHR '':''"
    by (auto simp: lower_def)
  have k: "code CHR '':'' = 58" by code_simp
  have "code (char_lower c) = 58" unfolding c k ..
  then have "code c = 58" unfolding char_lower_code by presburger
  then have "of_char c = (of_char CHR '':'' :: nat)" using k by (simp add: code_def)
  then have "c = CHR '':''" by (simp only: of_char_eq_iff)
  then show ?thesis using v by simp
qed

lemma lower_blank:
  assumes "lower v = '' ''"
  shows "list_all is_space v"
proof -
  from assms obtain c where v: "v = [c]" and c: "char_lower c = CHR '' ''"
    by (auto simp: lower_def)
  have k: "code CHR '' '' = 32" by code_simp
  have "code (char_lower c) = 32" unfolding c k ..
  then have "code c = 32" unfolding char_lower_code by presburger
  then have "is_space c" unfolding is_space_def by presburger
  then show ?thesis using v by simp
qed

lemma is_none_text_phrase_ended:
  assumes ph: "phrase_ci_at (''prerequisite'' @ s0 @ '':'' @ '' '' @ ''none'') text i"
    and e: "\<not> word_at text (i + length (''prerequisite'' @ s0 @ '':'' @ '' '' @ ''none''))"
    and s0: "s0 = [] \<or> s0 = ''s''"
  shows "is_none_text text"
proof -
  define ph0 where "ph0 = ''prerequisite'' @ s0 @ '':'' @ '' '' @ ''none''"
  define j where "j = i + length ph0"
  define X where "X = slice text i j"
  have lX: "lower X = ''prerequisite'' @ s0 @ '':'' @ '' '' @ ''none''"
    using ph unfolding phrase_ci_at_def X_def j_def ph0_def .
  have e': "\<not> word_at text j" using e unfolding j_def ph0_def .
  have "length (lower X) = length ph0" unfolding lX ph0_def ..
  then have "min (length ph0) (length text - i) = length ph0"
    by (simp add: lower_def X_def slice_def j_def)
  moreover have "0 < length ph0" by (simp add: ph0_def)
  ultimately have le: "j \<le> length text" unfolding j_def by linarith
  have ij: "i \<le> j" by (simp add: j_def)
  have "text = take i text @ slice text i j @ drop j text" using ij le by (rule slice_parts)
  then have t: "text = take i text @ X @ drop j text" unfolding X_def .
  obtain w r1 where 1: "X = w @ r1" "lower w = ''prerequisite''"
      "lower r1 = s0 @ '':'' @ '' '' @ ''none''"
    using lX by (rule lower_appendE)
  obtain s r2 where 2: "r1 = s @ r2" "lower s = s0" "lower r2 = '':'' @ '' '' @ ''none''"
    using 1(3) by (rule lower_appendE)
  obtain c r3 where 3: "r2 = c @ r3" "lower c = '':''" "lower r3 = '' '' @ ''none''"
    using 2(3) by (rule lower_appendE)
  obtain W n where 4: "r3 = W @ n" "lower W = '' ''" "lower n = ''none''"
    using 3(3) by (rule lower_appendE)
  have c: "c = '':''" using 3(2) by (rule lower_colon)
  have W: "list_all is_space W" using 4(2) by (rule lower_blank)
  have s: "s = [] \<or> lower s = ''s''" using s0 2(2) by (auto simp: lower_def)
  have X: "X = w @ s @ '':'' @ W @ n" unfolding 1(1) 2(1) 3(1) 4(1) c ..
  have t': "text = take i text @ w @ s @ '':'' @ W @ n @ drop j text"
    using t unfolding X by simp
  have q: "drop j text = [] \<or> \<not> is_word (hd (drop j text))"
  proof (cases "j < length text")
    case True
    then have "hd (drop j text) = text ! j" by (simp add: hd_drop_conv_nth)
    then show ?thesis using e' True by (simp add: word_at_def)
  next
    case False
    then show ?thesis by simp
  qed
  show ?thesis using t' 1(2) s W 4(3) q by (rule is_none_text_prerequisite_none)
qed

lemma is_none_text_phrase_ended_in:
  assumes "phrase_ci_ended_in ''prerequisite: none'' text
      \<or> phrase_ci_ended_in ''prerequisites: none'' text"
  shows "is_none_text text"
  using assms
proof
  assume "phrase_ci_ended_in ''prerequisite: none'' text"
  then obtain i where a: "phrase_ci_at ''prerequisite: none'' text i"
    and b: "\<not> word_at text (i + length ''prerequisite: none'')"
    unfolding phrase_ci_ended_in_def list_ex_iff by blast
  have x: "''prerequisite: none'' = ''prerequisite'' @ [] @ '':'' @ '' '' @ ''none''" by simp
  show ?thesis
    using a b unfolding x by (rule is_none_text_phrase_ended) simp
next
  assume "phrase_ci_ended_in ''prerequisites: none'' text"
  then obtain i where a: "phrase_ci_at ''prerequisites: none'' text i"
    and b: "\<not> word_at text (i + length ''prerequisites: none'')"
    unfolding phrase_ci_ended_in_def list_ex_iff by blast
  have x: "''prerequisites: none'' = ''prerequisite'' @ ''s'' @ '':'' @ '' '' @ ''none''" by simp
  show ?thesis
    using a b unfolding x by (rule is_none_text_phrase_ended) simp
qed

lemma analyze_snoc: "analyze (cs @ [c]) = analyze_step (analyze cs) c"
  by (simp add: analyze_def)

text \<open>
  C10, amended. A record whose prerequisite text contains \<open>no prerequisites\<close> as a
  case-insensitive substring, or contains \<open>prerequisite: none\<close> or \<open>prerequisites: none\<close>
  as a case-insensitive substring with no word character right after it, anywhere in the
  text: \<open>is_none_text\<close> holds of the text, and the step of \<open>analyze\<close> for the record appends
  it to the bucket \<open>none\<close> and changes neither \<open>course_only\<close> nor \<open>remaining\<close>, whatever
  else the text holds; so for \<open>analyze\<close> on a list that ends with the record.
\<close>

theorem negative_phrase_none_bucket:
  "prerequisites c = Some text
   \<and> (phrase_ci_in ''no prerequisites'' text
      \<or> phrase_ci_ended_in ''prerequisite: none'' text
      \<or> phrase_ci_ended_in ''prerequisites: none'' text)
   \<longrightarrow> is_none_text text
       \<and> analyze_step res c = res\<lparr>none := none res @ [c]\<rparr>
       \<and> analyze (cs @ [c]) = (analyze cs)\<lparr>none := none (analyze cs) @ [c]\<rparr>"
proof (intro impI, elim conjE)
  assume p: "prerequisites c = Some text"
    and h: "phrase_ci_in ''no prerequisites'' text
      \<or> phrase_ci_ended_in ''prerequisite: none'' text
      \<or> phrase_ci_ended_in ''prerequisites: none'' text"
  have n: "is_none_text text"
    using h
  proof
    assume "phrase_ci_in ''no prerequisites'' text"
    then have "contains ''no prerequisites'' (lower text)" unfolding phrase_ci_in_iff .
    then show ?thesis by (rule is_none_text_no_prerequisites)
  next
    assume "phrase_ci_ended_in ''prerequisite: none'' text
      \<or> phrase_ci_ended_in ''prerequisites: none'' text"
    then show ?thesis by (rule is_none_text_phrase_ended_in)
  qed
  have s: "analyze_step r c = r\<lparr>none := none r @ [c]\<rparr>" for r
    unfolding analyze_step_def Let_def p using n by simp
  show "is_none_text text
       \<and> analyze_step res c = res\<lparr>none := none res @ [c]\<rparr>
       \<and> analyze (cs @ [c]) = (analyze cs)\<lparr>none := none (analyze cs) @ [c]\<rparr>"
    using n s [of res] s [of "analyze cs"] unfolding analyze_snoc by (intro conjI)
qed

theorem negative_phrase_none_bucket_witness:
  "phrase_ci_ended_in ''prerequisites: none'' ''CS 225; Prerequisites: None.''
   \<and> is_none_text ''CS 225; Prerequisites: None.''
   \<and> analyze [\<lparr>index = None, name = None, prerequisites = Some ''CS 225; Prerequisites: None.''\<rparr>]
       = \<lparr>none = [\<lparr>index = None, name = None, prerequisites = Some ''CS 225; Prerequisites: None.''\<rparr>],
          course_only = [], remaining = []\<rparr>"
proof -
  define c where "c = \<lparr>index = None, name = None, prerequisites = Some ''CS 225; Prerequisites: None.''\<rparr>"
  have h: "phrase_ci_ended_in ''prerequisites: none'' ''CS 225; Prerequisites: None.''" by code_simp
  have p: "prerequisites c = Some ''CS 225; Prerequisites: None.''" by (simp add: c_def)
  have a: "analyze [] = \<lparr>none = [], course_only = [], remaining = []\<rparr>" by (simp add: analyze_def)
  from negative_phrase_none_bucket [of c "''CS 225; Prerequisites: None.''" _ "[]"] p h
  have "is_none_text ''CS 225; Prerequisites: None.''"
    and "analyze ([] @ [c]) = (analyze [])\<lparr>none := none (analyze []) @ [c]\<rparr>"
    by blast+
  then show ?thesis using h unfolding a by (simp add: c_def)
qed

text \<open>
  C10 as stated fails on the text \<open>"Prerequisites: nonesuch CS 225"\<close>: it contains
  \<open>prerequisites: none\<close> as a case-insensitive substring, a word character follows the
  phrase, \<open>is_none_text\<close> does not hold of it, and \<open>analyze\<close> places the record in
  \<open>remaining\<close>.
\<close>

theorem nonesuch_placed_in_remaining:
  "phrase_ci_in ''prerequisites: none'' ''Prerequisites: nonesuch CS 225''
   \<and> contains ''prerequisites: none'' (lower ''Prerequisites: nonesuch CS 225'')
   \<and> \<not> is_none_text ''Prerequisites: nonesuch CS 225''
   \<and> analyze [\<lparr>index = None, name = None,
         prerequisites = Some ''Prerequisites: nonesuch CS 225''\<rparr>]
       = \<lparr>none = [], course_only = [],
          remaining = [(None, None, ''Prerequisites: nonesuch CS 225'')]\<rparr>"
  by code_simp

end
